theory Spec2Isabelle
  imports Main "HOL-Library.Sublist" "HOL-Library.Char_ord" "HOL-Library.List_Lexorder"
begin

section \<open>Strings, file names and the two filename patterns\<close>

text \<open>
  A JavaScript string is modelled as a \<open>string\<close> (a list of code units). The default
  \<open>Array.prototype.sort()\<close> compares strings code unit by code unit, a proper prefix
  being smaller; this is the lexicographic order on \<open>char list\<close> of
  \<open>List_Lexorder\<close> over the order of \<open>Char_ord\<close>.
\<close>

type_synonym path = string

text \<open>The class \<open>\d\<close> of a JavaScript regular expression: the ten ASCII digits.\<close>

definition is_digit :: "char \<Rightarrow> bool" where
  "is_digit c = (c \<in> set ''0123456789'')"

text \<open>
  The regular expressions \<open>/immich-db-backup-\d+\.sql\.gz\.tmp$/\<close> and
  \<open>/immich-db-backup-\d+\.sql\.gz$/\<close> of \<open>cleanupDatabaseBackups\<close> differ in the
  literal that follows the digits only, so that literal is the parameter \<open>ext\<close>.
  \<open>match_here ext s\<close> is a match that starts at the first character of \<open>s\<close>: the
  literal \<open>immich-db-backup-\<close>, one or more digits, \<open>ext\<close>, end of input. The digits
  are taken greedily; no backtracking is needed since \<open>ext\<close> starts with a dot.
  Neither expression has a \<open>^\<close> anchor, so \<open>String.prototype.match\<close> tries every
  start position from left to right: \<open>regex_search\<close>.
\<close>

definition match_here :: "string \<Rightarrow> string \<Rightarrow> bool" where
  "match_here ext s =
     (prefix ''immich-db-backup-'' s \<and>
      (let t = drop (length ''immich-db-backup-'') s
       in takeWhile is_digit t \<noteq> [] \<and> dropWhile is_digit t = ext))"

fun regex_search :: "string \<Rightarrow> string \<Rightarrow> bool" where
  "regex_search ext [] = match_here ext []"
| "regex_search ext (c # cs) = (match_here ext (c # cs) \<or> regex_search ext cs)"

definition is_failed_backup :: "string \<Rightarrow> bool" where
  "is_failed_backup file = regex_search ''.sql.gz.tmp'' file"

definition is_backup :: "string \<Rightarrow> bool" where
  "is_backup file = regex_search ''.sql.gz'' file"

text \<open>
  The names the spec calls well-formed: the whole name is \<open>immich-db-backup-\<close>, a
  non-empty run of digits, and the extension.
\<close>

definition final_name :: "string \<Rightarrow> string" where
  "final_name ds = ''immich-db-backup-'' @ ds @ ''.sql.gz''"

definition temp_name :: "string \<Rightarrow> string" where
  "temp_name ds = ''immich-db-backup-'' @ ds @ ''.sql.gz.tmp''"

definition digits :: "string \<Rightarrow> bool" where
  "digits ds = (ds \<noteq> [] \<and> list_all is_digit ds)"

definition wf_final :: "string \<Rightarrow> bool" where
  "wf_final file = match_here ''.sql.gz'' file"

definition wf_temp :: "string \<Rightarrow> bool" where
  "wf_temp file = match_here ''.sql.gz.tmp'' file"

text \<open>The number a run of decimal digits denotes: the embedded timestamp.\<close>

definition digit_val :: "char \<Rightarrow> nat" where
  "digit_val c = of_char c - of_char CHR ''0''"

definition nat_of_digits :: "string \<Rightarrow> nat" where
  "nat_of_digits ds = foldl (\<lambda>n c. 10 * n + digit_val c) 0 ds"

definition timestamp :: "string \<Rightarrow> nat" where
  "timestamp file = nat_of_digits (takeWhile is_digit (drop (length ''immich-db-backup-'') file))"

text \<open>
  The template literal \<open>`${Date.now()}`\<close>: the decimal digits of a non-negative
  integer.
\<close>

fun show_nat :: "nat \<Rightarrow> string" where
  "show_nat n =
     (if n < 10 then [''0123456789'' ! n]
      else show_nat (n div 10) @ [''0123456789'' ! (n mod 10)])"

declare show_nat.simps [simp del]

text \<open>
  \<open>String.prototype.replace\<close> with a string pattern replaces the first occurrence of
  the pattern, and only that one.
\<close>

fun replace_first :: "string \<Rightarrow> string \<Rightarrow> string \<Rightarrow> string" where
  "replace_first pat rep [] = (if pat = [] then rep else [])"
| "replace_first pat rep (c # cs) =
     (if prefix pat (c # cs) then rep @ drop (length pat) (c # cs)
      else c # replace_first pat rep cs)"

fun contains :: "string \<Rightarrow> string \<Rightarrow> bool" where
  "contains pat [] = (pat = [])"
| "contains pat (c # cs) = (prefix pat (c # cs) \<or> contains pat cs)"

text \<open>
  \<open>path.join(folder, name)\<close> for a folder that is already normalised and has no
  trailing separator, and a name without separators, on POSIX.
\<close>

definition path_join :: "path \<Rightarrow> string \<Rightarrow> path" where
  "path_join folder name = folder @ ''/'' @ name"

section \<open>The world outside the service\<close>

text \<open>
  The service reaches its collaborators through \<open>storageRepository\<close>,
  \<open>child_process.spawn\<close>, \<open>configRepository\<close>, \<open>jobRepository\<close> and
  \<open>databaseRepository\<close>; none of them is part of the sources under study, so what
  they do is a parameter of the model (the record \<open>world\<close>) or is modelled from the
  spec, as said at each definition. Every call the service makes is recorded, oldest
  first, in \<open>calls\<close>, together with its outcome where it has one; \<open>files\<close> holds the
  paths of the regular files that exist.
\<close>

datatype call =
    Spawn string "string list" "(string \<times> string option) list option"
  | CreateWriteStream path
  | Rename path path bool
  | Unlink path bool

record sys =
  files :: "path list"
  calls :: "call list"

text \<open>
  Modelled from the spec: the configuration surface (section 6), whose type declarations
  are not among the sources. \<open>DatabaseConnectionParams\<close> is
  \<open>configRepository.getEnv().database.config\<close>, with the fields the method reads.
\<close>

record DatabaseConnectionParams =
  connectionType :: string
  url :: string
  username :: string
  host :: string
  password :: string

text \<open>
  Modelled from the spec: \<open>getConfig().backup.database\<close>, the retention policy of
  section 3, \<open>keepLastAmount\<close> being an unsigned integer.
\<close>

record DatabaseBackupConfig =
  cronExpression :: string
  enabled :: bool
  keepLastAmount :: nat

text \<open>
  Everything a run reads from outside: the two configurations, \<open>process.env.PATH\<close>,
  the folder \<open>StorageCore.getBaseFolder(StorageFolder.BACKUPS)\<close>, the clock
  \<open>Date.now()\<close>, whether \<open>spawn\<close> gave each child its \<open>stdout\<close> and \<open>stderr\<close>
  streams, and which \<open>unlink\<close> and \<open>rename\<close> calls the file system refuses.
\<close>

record world =
  config :: DatabaseConnectionParams
  backup :: DatabaseBackupConfig
  env_PATH :: "string option"
  baseFolder :: path
  now :: nat
  pgdump_streams :: bool
  gzip_streams :: bool
  unlink_fails :: "path \<Rightarrow> bool"
  rename_fails :: "path \<Rightarrow> path \<Rightarrow> bool"

datatype error = UnlinkError path | RenameError path path

text \<open>
  Modelled from the spec: the storage repository (the BackupStore of section 2), whose
  implementation is not among the sources. \<open>storageRepository.readdir(folder)\<close> gives
  the names of the entries directly inside \<open>folder\<close>, in the order the file system
  lists them; the folder is taken to exist.
\<close>

definition readdir :: "path \<Rightarrow> sys \<Rightarrow> string list" where
  "readdir folder st =
     map (drop (length (folder @ ''/'')))
       (filter (\<lambda>p. prefix (folder @ ''/'') p \<and>
                    drop (length (folder @ ''/'')) p \<noteq> [] \<and>
                    CHR ''/'' \<notin> set (drop (length (folder @ ''/'')) p))
               (files st))"

text \<open>
  Modelled from the spec: \<open>storageRepository.unlink(p)\<close> deletes a file. The promise
  rejects when the file does not exist or the file system refuses (the deletion failure
  of sections 4.4 and 7); otherwise the file is gone.
\<close>

definition unlink :: "world \<Rightarrow> path \<Rightarrow> sys \<Rightarrow> (error + unit) \<times> sys" where
  "unlink w p st =
     (if p \<in> set (files st) \<and> \<not> unlink_fails w p
      then (Inr (), st\<lparr>files := removeAll p (files st), calls := calls st @ [Unlink p True]\<rparr>)
      else (Inl (UnlinkError p), st\<lparr>calls := calls st @ [Unlink p False]\<rparr>))"

text \<open>
  Modelled from the spec: \<open>storageRepository.rename(src, dst)\<close>, the atomic publish.
  The promise rejects when the source does not exist or the file system refuses (the
  publish failure of section 7); otherwise the file is known under \<open>dst\<close> only,
  replacing what was there.
\<close>

definition rename :: "world \<Rightarrow> path \<Rightarrow> path \<Rightarrow> sys \<Rightarrow> (error + unit) \<times> sys" where
  "rename w src dst st =
     (if src \<in> set (files st) \<and> \<not> rename_fails w src dst
      then (Inr (), st\<lparr>files := removeAll src (removeAll dst (files st)) @ [dst],
                         calls := calls st @ [Rename src dst True]\<rparr>)
      else (Inl (RenameError src dst), st\<lparr>calls := calls st @ [Rename src dst False]\<rparr>))"

text \<open>
  Modelled from the spec: \<open>storageRepository.createWriteStream(p)\<close> opens the write
  destination: it creates the file (or truncates it).
\<close>

definition createWriteStream :: "path \<Rightarrow> sys \<Rightarrow> sys" where
  "createWriteStream p st =
     st\<lparr>files := (if p \<in> set (files st) then files st else files st @ [p]),
        calls := calls st @ [CreateWriteStream p]\<rparr>"

text \<open>
  \<open>child_process.spawn(cmd, args, options)\<close>, as far as the service is concerned: the
  call is recorded with the \<open>env\<close> of its options (\<open>None\<close> when the options have
  none, and the child inherits the environment of the server).
\<close>

definition spawn ::
  "string \<Rightarrow> string list \<Rightarrow> (string \<times> string option) list option \<Rightarrow> sys \<Rightarrow> sys" where
  "spawn cmd args env st = st\<lparr>calls := calls st @ [Spawn cmd args env]\<rparr>"

section \<open>cleanupDatabaseBackups\<close>

text \<open>
  The three lists of the method, as functions of the listing \<open>files\<close> and of
  \<open>config.keepLastAmount\<close>: \<open>filter\<close>, \<open>sort\<close>, \<open>reverse\<close>, \<open>slice\<close> and
  \<open>push\<close> become \<open>filter\<close>, \<open>sort\<close>, \<open>rev\<close>, \<open>drop\<close> and \<open>@\<close>.
\<close>

definition failedBackups :: "string list \<Rightarrow> string list" where
  "failedBackups fs = filter is_failed_backup fs"

definition backups :: "string list \<Rightarrow> string list" where
  "backups fs = rev (sort (filter is_backup fs))"

definition toDelete :: "nat \<Rightarrow> string list \<Rightarrow> string list" where
  "toDelete k fs = drop k (backups fs) @ failedBackups fs"

text \<open>
  The loop \<open>for (const file of toDelete) await unlink(path.join(backupsFolder, file))\<close>.
  There is no \<open>try\<close> around the \<open>await\<close>: a rejected \<open>unlink\<close> leaves the loop and
  the function.
\<close>

fun unlink_each :: "world \<Rightarrow> path \<Rightarrow> string list \<Rightarrow> sys \<Rightarrow> (error + unit) \<times> sys" where
  "unlink_each w folder [] st = (Inr (), st)"
| "unlink_each w folder (file # rest) st =
     (case unlink w (path_join folder file) st of
        (Inl e, st') \<Rightarrow> (Inl e, st')
      | (Inr u, st') \<Rightarrow> unlink_each w folder rest st')"

text \<open>
  The method itself; \<open>getConfig\<close> is taken to succeed. The value on success is the
  number the last log line reports, \<open>toDelete.length\<close>.
\<close>

definition cleanupDatabaseBackups :: "world \<Rightarrow> sys \<Rightarrow> (error + nat) \<times> sys" where
  "cleanupDatabaseBackups w st =
     (let backupsFolder = baseFolder w;
          fs = readdir backupsFolder st;
          td = toDelete (keepLastAmount (backup w)) fs
      in case unlink_each w backupsFolder td st of
           (Inl e, st') \<Rightarrow> (Inl e, st')
         | (Inr u, st') \<Rightarrow> (Inr (length td), st'))"

section \<open>handleBackupDatabase\<close>

text \<open>
  Modelled from the spec: the result of a run, \<open>JobStatus {SUCCESS, FAILED}\<close> (section
  4.3); the enum is not among the sources, which name these two members.
\<close>

datatype JobStatus = SUCCESS | FAILED

datatype promise = Pending | Resolved | Rejected

text \<open>
  What the two child processes emit while the promise of \<open>handleBackupDatabase\<close> is
  awaited, in the order the event loop delivers it. An exit carries the \<open>code\<close> of
  the \<open>'exit'\<close> event: a number, or \<open>null\<close> (here \<open>None\<close>) when a signal ended
  the process.
\<close>

datatype proc_event =
    PgdumpError
  | GzipError
  | PgdumpStderr string
  | GzipStderr string
  | PgdumpExit "int option"
  | GzipExit "int option"

text \<open>
  \<open>exitCode\<close> is \<open>pgdump.exitCode\<close>: \<open>null\<close> while the process runs, from its exit
  on the code of the exit.
\<close>

record run_state =
  system :: sys
  settled :: promise
  exitCode :: "int option"
  pgdumpLogs :: string
  gzipLogs :: string

text \<open>A promise settles once: later calls of \<open>resolve\<close> and \<open>reject\<close> do nothing.\<close>

definition resolve :: "run_state \<Rightarrow> run_state" where
  "resolve s = (if settled s = Pending then s\<lparr>settled := Resolved\<rparr> else s)"

definition reject :: "run_state \<Rightarrow> run_state" where
  "reject s = (if settled s = Pending then s\<lparr>settled := Rejected\<rparr> else s)"

definition isUrlConnection :: "DatabaseConnectionParams \<Rightarrow> bool" where
  "isUrlConnection c = (connectionType c = ''url'')"

definition databaseParams :: "DatabaseConnectionParams \<Rightarrow> string list" where
  "databaseParams c =
     (if isUrlConnection c then [url c] else [''-U'', username c, ''-h'', host c])"

definition pgdump_args :: "DatabaseConnectionParams \<Rightarrow> string list" where
  "pgdump_args c = databaseParams c @ [''--clean'', ''--if-exists'']"

text \<open>
  The \<open>env\<close> option of the first \<open>spawn\<close>, as the object literal has it: a key whose
  value is \<open>undefined\<close> (here \<open>None\<close>) is not passed to the child.
\<close>

definition pgdump_env :: "world \<Rightarrow> (string \<times> string option) list" where
  "pgdump_env w =
     [(''PATH'', env_PATH w),
      (''PGPASSWORD'', if isUrlConnection (config w) then None else Some (password (config w)))]"

definition child_env :: "(string \<times> string option) list \<Rightarrow> (string \<times> string) list" where
  "child_env e = List.map_filter (\<lambda>(k, v). map_option (Pair k) v) e"

definition backupFilePath :: "world \<Rightarrow> path" where
  "backupFilePath w =
     path_join (baseFolder w) (''immich-db-backup-'' @ show_nat (now w) @ ''.sql.gz.tmp'')"

text \<open>
  The body of the promise executor up to the registration of the handlers. When a stream
  of a child is missing the promise is rejected and no handler is registered (a missing
  \<open>gzip.stdout\<close> already makes \<open>gzip.stdout.pipe\<close> throw inside the executor, which
  rejects the promise as well).
\<close>

definition start_pipeline :: "world \<Rightarrow> sys \<Rightarrow> run_state" where
  "start_pipeline w st =
     (let st1 = spawn ''pg_dumpall'' (pgdump_args (config w)) (Some (pgdump_env w)) st;
          st2 = spawn ''gzip'' [] None st1;
          st3 = createWriteStream (backupFilePath w) st2;
          s = \<lparr>system = st3, settled = Pending, exitCode = None,
               pgdumpLogs = [], gzipLogs = []\<rparr>
      in if \<not> pgdump_streams w \<or> \<not> gzip_streams w then reject s else s)"

text \<open>The handlers of the executor, one equation for each \<open>.on(...)\<close>.\<close>

fun on_event :: "world \<Rightarrow> path \<Rightarrow> proc_event \<Rightarrow> run_state \<Rightarrow> run_state" where
  "on_event w tmp PgdumpError s = reject s"
| "on_event w tmp GzipError s = reject s"
| "on_event w tmp (PgdumpStderr d) s = s\<lparr>pgdumpLogs := pgdumpLogs s @ d\<rparr>"
| "on_event w tmp (GzipStderr d) s = s\<lparr>gzipLogs := gzipLogs s @ d\<rparr>"
| "on_event w tmp (PgdumpExit code) s =
     (if code \<noteq> Some 0 then reject (s\<lparr>exitCode := code\<rparr>) else s\<lparr>exitCode := code\<rparr>)"
| "on_event w tmp (GzipExit code) s =
     (if code \<noteq> Some 0 then reject s
      else if exitCode s \<noteq> Some 0 then s
      else (case rename w tmp (replace_first ''.tmp'' [] tmp) (system s) of
              (Inl e, st') \<Rightarrow> reject (s\<lparr>system := st'\<rparr>)
            | (Inr u, st') \<Rightarrow> resolve (s\<lparr>system := st'\<rparr>)))"

text \<open>
  \<open>await new Promise(...)\<close>: events are handled until the promise settles; the events
  still to come are returned with the state. When the events end and the promise is
  pending, the \<open>await\<close> never returns.
\<close>

fun await_promise ::
  "world \<Rightarrow> path \<Rightarrow> proc_event list \<Rightarrow> run_state \<Rightarrow> run_state \<times> proc_event list" where
  "await_promise w tmp [] s = (s, [])"
| "await_promise w tmp (e # es) s =
     (if settled s \<noteq> Pending then (s, e # es)
      else await_promise w tmp es (on_event w tmp e s))"

text \<open>The handlers stay registered: events after the settlement are still handled.\<close>

definition late_events :: "world \<Rightarrow> path \<Rightarrow> proc_event list \<Rightarrow> run_state \<Rightarrow> run_state" where
  "late_events w tmp es s = foldl (\<lambda>s e. on_event w tmp e s) s es"

text \<open>
  Lines 92 to 171, \<open>await new Promise(...)\<close>: the executor runs, then the events are
  handled, by the handlers the executor registered, until the promise settles.
\<close>

definition run_pipeline :: "world \<Rightarrow> proc_event list \<Rightarrow> sys \<Rightarrow> run_state \<times> proc_event list" where
  "run_pipeline w evs st =
     await_promise w (backupFilePath w)
       (if pgdump_streams w \<and> gzip_streams w then evs else []) (start_pipeline w st)"

datatype outcome = Returns JobStatus | Throws error | NeverReturns

text \<open>
  The whole method. A rejected promise is caught and gives \<open>FAILED\<close> at once; after a
  resolved one \<open>cleanupDatabaseBackups\<close> is awaited outside the \<open>try\<close>, so its
  exception leaves the method. The second component is the system after the last event:
  the events that follow the settlement are handled after the continuation of the
  \<open>await\<close>.
\<close>

definition handleBackupDatabase :: "world \<Rightarrow> proc_event list \<Rightarrow> sys \<Rightarrow> outcome \<times> sys" where
  "handleBackupDatabase w evs st =
     (let tmp = backupFilePath w;
          (s, late) = run_pipeline w evs st
      in case settled s of
           Pending \<Rightarrow> (NeverReturns, system s)
         | Rejected \<Rightarrow> (Returns FAILED, system (late_events w tmp late s))
         | Resolved \<Rightarrow>
             (case cleanupDatabaseBackups w (system s) of
                (Inl e, st') \<Rightarrow> (Throws e, system (late_events w tmp late (s\<lparr>system := st'\<rparr>)))
              | (Inr n, st') \<Rightarrow>
                  (Returns SUCCESS, system (late_events w tmp late (s\<lparr>system := st'\<rparr>)))))"

text \<open>Kinds of calls and of events, to speak about traces.\<close>

fun is_unlink :: "call \<Rightarrow> bool" where
  "is_unlink (Unlink p ok) = True"
| "is_unlink c = False"

fun is_rename :: "call \<Rightarrow> bool" where
  "is_rename (Rename a b ok) = True"
| "is_rename c = False"

fun is_stderr :: "proc_event \<Rightarrow> bool" where
  "is_stderr (PgdumpStderr d) = True"
| "is_stderr (GzipStderr d) = True"
| "is_stderr e = False"

section \<open>The scheduler: onBootstrap and onConfigUpdate\<close>

text \<open>
  Modelled from the spec: the worker roles (the enum \<open>ImmichWorker\<close> is not among the
  sources). The code names \<open>ImmichWorker.API\<close> only, the designated role of section
  4.2; all other roles are treated alike.
\<close>

datatype ImmichWorker = API | MICROSERVICES

datatype JobName = BACKUP_DATABASE

datatype job_call =
    AddCronJob string string bool
  | UpdateCronJob string string bool
  | QueueJob JobName

text \<open>
  The field \<open>backupLock\<close> of the service, and the calls it has made to
  \<open>jobRepository\<close>, oldest first.
\<close>

record BackupService =
  backupLock :: bool
  job_calls :: "job_call list"

definition new_service :: BackupService where
  "new_service = \<lparr>backupLock = False, job_calls = []\<rparr>"

text \<open>
  \<open>onBootstrap\<close>; \<open>database\<close> is \<open>getConfig().backup.database\<close> and \<open>tryLock\<close> what
  \<open>databaseRepository.tryLock(DatabaseLock.BackupDatabase)\<close> returns.
\<close>

definition onBootstrap ::
  "ImmichWorker \<Rightarrow> DatabaseBackupConfig \<Rightarrow> bool \<Rightarrow> BackupService \<Rightarrow> BackupService" where
  "onBootstrap workerType database tryLock svc =
     (if workerType \<noteq> API then svc
      else (let svc' = svc\<lparr>backupLock := tryLock\<rparr>
            in if backupLock svc'
               then svc'\<lparr>job_calls := job_calls svc' @
                      [AddCronJob ''backupDatabase'' (cronExpression database) (enabled database)]\<rparr>
               else svc'))"

definition onConfigUpdate ::
  "DatabaseBackupConfig \<Rightarrow> DatabaseBackupConfig option \<Rightarrow> BackupService \<Rightarrow> BackupService" where
  "onConfigUpdate database oldConfig svc =
     (if oldConfig = None \<or> \<not> backupLock svc then svc
      else svc\<lparr>job_calls := job_calls svc @
             [UpdateCronJob ''backupDatabase'' (cronExpression database) (enabled database)]\<rparr>)"

fun is_registration :: "job_call \<Rightarrow> bool" where
  "is_registration (AddCronJob name e b) = (name = ''backupDatabase'')"
| "is_registration c = False"

text \<open>
  Modelled from the spec: the job repository (\<open>jobRepository\<close>, whose implementation is
  not among the sources). A cron job runs its callback only once \<open>addCronJob\<close> has
  registered it; the callback given by \<open>onBootstrap\<close> queues \<open>JobName.BACKUP_DATABASE\<close>.
  Every registered job may fire, whatever its \<open>enabled\<close> flag.
\<close>

definition cron_tick :: "BackupService \<Rightarrow> BackupService" where
  "cron_tick svc =
     (if list_ex is_registration (job_calls svc)
      then svc\<lparr>job_calls := job_calls svc @ [QueueJob BACKUP_DATABASE]\<rparr>
      else svc)"

datatype service_event =
    ConfigUpdate DatabaseBackupConfig "DatabaseBackupConfig option"
  | CronTick

fun service_step :: "service_event \<Rightarrow> BackupService \<Rightarrow> BackupService" where
  "service_step (ConfigUpdate database oldConfig) svc = onConfigUpdate database oldConfig svc"
| "service_step CronTick svc = cron_tick svc"

definition run_service :: "service_event list \<Rightarrow> BackupService \<Rightarrow> BackupService" where
  "run_service evs svc = foldl (\<lambda>s e. service_step e s) svc evs"

section \<open>Example inputs\<close>

text \<open>
  The scenario of the spec: three finished backups, one orphaned temporary file, and a
  keep-count of two; beside them a file the service does not know and a file outside the
  backups folder.
\<close>

definition example_config :: DatabaseConnectionParams where
  "example_config =
     \<lparr>connectionType = ''host'', url = ''postgres://db/immich'', username = ''postgres'',
      host = ''database'', password = ''secret''\<rparr>"

definition example_world :: world where
  "example_world =
     \<lparr>config = example_config,
      backup = \<lparr>cronExpression = ''0 02 * * *'', enabled = True, keepLastAmount = 2\<rparr>,
      env_PATH = Some ''/usr/bin'', baseFolder = ''upload/backups'', now = 500,
      pgdump_streams = True, gzip_streams = True,
      unlink_fails = (\<lambda>p. False), rename_fails = (\<lambda>a b. False)\<rparr>"

definition example_sys :: sys where
  "example_sys =
     \<lparr>files = [''upload/backups/immich-db-backup-100.sql.gz'',
               ''upload/backups/immich-db-backup-200.sql.gz'',
               ''upload/backups/immich-db-backup-300.sql.gz'',
               ''upload/backups/immich-db-backup-400.sql.gz.tmp'',
               ''upload/backups/notes.txt'',
               ''upload/profile.jpg''],
      calls = []\<rparr>"

definition example_config_url :: DatabaseConnectionParams where
  "example_config_url =
     \<lparr>connectionType = ''url'', url = ''postgres://db/immich'', username = ''postgres'',
      host = ''database'', password = ''secret''\<rparr>"

section \<open>The calls of a run are only ever appended to\<close>

lemma system_reject [simp]: "system (reject s) = system s"
  by (simp add: reject_def)

lemma system_resolve [simp]: "system (resolve s) = system s"
  by (simp add: resolve_def)

lemma exitCode_reject [simp]: "exitCode (reject s) = exitCode s"
  by (simp add: reject_def)

lemma exitCode_resolve [simp]: "exitCode (resolve s) = exitCode s"
  by (simp add: resolve_def)

lemma calls_unlink: "prefix (calls st) (calls (snd (unlink w p st)))"
  by (simp add: unlink_def)

lemma calls_rename: "prefix (calls st) (calls (snd (rename w a b st)))"
  by (simp add: rename_def)

lemma calls_unlink_each: "prefix (calls st) (calls (snd (unlink_each w folder fs st)))"
proof (induction fs arbitrary: st)
  case Nil
  show ?case by simp
next
  case (Cons f fs)
  obtain r st' where u: "unlink w (path_join folder f) st = (r, st')"
    by (cases "unlink w (path_join folder f) st")
  have p: "prefix (calls st) (calls st')"
    using calls_unlink [of st w "path_join folder f"] u by simp
  show ?case
  proof (cases r)
    case (Inl e)
    with u p show ?thesis by simp
  next
    case (Inr v)
    with u have "unlink_each w folder (f # fs) st = unlink_each w folder fs st'"
      by simp
    with p Cons.IH [of st'] show ?thesis
      by (metis prefix_order.trans)
  qed
qed

lemma snd_cleanup:
  "snd (cleanupDatabaseBackups w st) =
     snd (unlink_each w (baseFolder w)
            (toDelete (keepLastAmount (backup w)) (readdir (baseFolder w) st)) st)"
  by (simp add: cleanupDatabaseBackups_def Let_def split: prod.splits sum.splits)

lemma calls_cleanup: "prefix (calls st) (calls (snd (cleanupDatabaseBackups w st)))"
  by (simp add: snd_cleanup calls_unlink_each)

lemma calls_on_event: "prefix (calls (system s)) (calls (system (on_event w tmp e s)))"
proof (cases e)
  case (GzipExit code)
  then show ?thesis
    using calls_rename [of "system s" w tmp "replace_first ''.tmp'' [] tmp"]
    by (auto split: prod.splits sum.splits)
qed simp_all

lemma late_events_Cons:
  "late_events w tmp (e # es) s = late_events w tmp es (on_event w tmp e s)"
  by (simp add: late_events_def)

lemma late_events_Nil [simp]: "late_events w tmp [] s = s"
  by (simp add: late_events_def)

lemma calls_late_events: "prefix (calls (system s)) (calls (system (late_events w tmp es s)))"
proof (induction es arbitrary: s)
  case Nil
  show ?case by simp
next
  case (Cons e es)
  from Cons.IH [of "on_event w tmp e s"] calls_on_event [of s w tmp e] show ?case
    unfolding late_events_Cons by (metis prefix_order.trans)
qed

lemma calls_await: "prefix (calls (system s)) (calls (system (fst (await_promise w tmp es s))))"
proof (induction es arbitrary: s)
  case Nil
  show ?case by simp
next
  case (Cons e es)
  show ?case
  proof (cases "settled s = Pending")
    case True
    then have "await_promise w tmp (e # es) s = await_promise w tmp es (on_event w tmp e s)"
      by simp
    with Cons.IH [of "on_event w tmp e s"] calls_on_event [of s w tmp e] show ?thesis
      by (metis prefix_order.trans)
  next
    case False
    then show ?thesis by simp
  qed
qed

lemma calls_start_pipeline:
  "calls (system (start_pipeline w st)) =
     calls st @ [Spawn ''pg_dumpall'' (pgdump_args (config w)) (Some (pgdump_env w)),
                 Spawn ''gzip'' [] None, CreateWriteStream (backupFilePath w)]"
  by (simp add: start_pipeline_def Let_def spawn_def createWriteStream_def)

text \<open>The three cases of the method, one lemma each.\<close>

lemma handle_Pending:
  assumes "run_pipeline w evs st = (s, late)"
    and "settled s = Pending"
  shows "handleBackupDatabase w evs st = (NeverReturns, system s)"
  using assms by (simp add: handleBackupDatabase_def Let_def)

lemma handle_Rejected:
  assumes "run_pipeline w evs st = (s, late)"
    and "settled s = Rejected"
  shows "handleBackupDatabase w evs st =
           (Returns FAILED, system (late_events w (backupFilePath w) late s))"
  using assms by (simp add: handleBackupDatabase_def Let_def)

lemma handle_Resolved:
  assumes "run_pipeline w evs st = (s, late)"
    and "settled s = Resolved"
    and "cleanupDatabaseBackups w (system s) = (r, st')"
  shows "handleBackupDatabase w evs st =
           ((case r of Inl e \<Rightarrow> Throws e | Inr n \<Rightarrow> Returns SUCCESS),
            system (late_events w (backupFilePath w) late (s\<lparr>system := st'\<rparr>)))"
  using assms by (cases r) (simp_all add: handleBackupDatabase_def Let_def)

lemma calls_handleBackupDatabase:
  "prefix (calls (system (start_pipeline w st))) (calls (snd (handleBackupDatabase w evs st)))"
proof -
  let ?h = "if pgdump_streams w \<and> gzip_streams w then evs else []"
  obtain s late where a: "run_pipeline w evs st = (s, late)"
    by (cases "run_pipeline w evs st")
  have p1: "prefix (calls (system (start_pipeline w st))) (calls (system s))"
    using calls_await [of "start_pipeline w st" w "backupFilePath w" ?h] a
    by (simp add: run_pipeline_def)
  show ?thesis
  proof (cases "settled s")
    case Pending
    with a p1 show ?thesis by (simp add: handle_Pending)
  next
    case Rejected
    with a p1 calls_late_events [of s w "backupFilePath w" late] show ?thesis
      by (simp add: handle_Rejected)
  next
    case Resolved
    obtain r st' where c: "cleanupDatabaseBackups w (system s) = (r, st')"
      by (cases "cleanupDatabaseBackups w (system s)")
    have p2: "prefix (calls (system s)) (calls st')"
      using calls_cleanup [of "system s" w] c by simp
    have p3: "prefix (calls st')
                (calls (system (late_events w (backupFilePath w) late (s\<lparr>system := st'\<rparr>))))"
      using calls_late_events [of "s\<lparr>system := st'\<rparr>" w "backupFilePath w" late] by simp
    have "snd (handleBackupDatabase w evs st) =
            system (late_events w (backupFilePath w) late (s\<lparr>system := st'\<rparr>))"
      using handle_Resolved [OF a Resolved c] by simp
    with p1 p2 p3 show ?thesis
      by (metis prefix_order.trans)
  qed
qed

section \<open>The scheduler\<close>

lemma run_service_idle:
  "\<not> backupLock svc \<Longrightarrow> \<not> list_ex is_registration (job_calls svc) \<Longrightarrow> run_service evs svc = svc"
proof (induction evs)
  case Nil
  show ?case by (simp add: run_service_def)
next
  case (Cons e evs)
  have "service_step e svc = svc"
    using Cons.prems by (cases e) (simp_all add: onConfigUpdate_def cron_tick_def)
  with Cons show ?case by (simp add: run_service_def)
qed

text \<open>
  C8. An instance whose \<open>tryLock\<close> returns false at bootstrap makes no call to the job
  repository, whatever config updates and cron ticks follow: no cron job is registered,
  updated or run, and the lock flag stays false. The service is left exactly as it was
  created.
\<close>

theorem lock_not_held_never_schedules:
  "run_service evs (onBootstrap workerType database False new_service) = new_service
   \<and> job_calls (run_service evs (onBootstrap workerType database False new_service)) = []
   \<and> backupLock (run_service evs (onBootstrap workerType database False new_service)) = False"
proof -
  have "onBootstrap workerType database False new_service = new_service"
    by (simp add: onBootstrap_def new_service_def)
  then have "run_service evs (onBootstrap workerType database False new_service) = new_service"
    by (simp add: run_service_idle new_service_def)
  then show ?thesis
    by (simp add: new_service_def)
qed

theorem lock_not_held_never_schedules_witness:
  "job_calls (run_service
      [ConfigUpdate \<lparr>cronExpression = ''0 03 * * *'', enabled = True, keepLastAmount = 5\<rparr>
         (Some (backup example_world)), CronTick]
      (onBootstrap API (backup example_world) False new_service)) = []"
  using lock_not_held_never_schedules
    [of "[ConfigUpdate \<lparr>cronExpression = ''0 03 * * *'', enabled = True, keepLastAmount = 5\<rparr>
            (Some (backup example_world)), CronTick]" API "backup example_world"]
  by blast

section \<open>The arguments and the environment of the dump producer\<close>

text \<open>
  C9. In host mode (\<open>connectionType\<close> other than \<open>url\<close>) the producer is spawned with
  exactly \<open>-U\<close>, the user name, \<open>-h\<close>, the host, \<open>--clean\<close>, \<open>--if-exists\<close>, and the
  password reaches it through \<open>PGPASSWORD\<close> in the environment of that \<open>spawn\<close> only; in
  URL mode the arguments are the URL, \<open>--clean\<close>, \<open>--if-exists\<close> and no \<open>PGPASSWORD\<close> is
  set. The argument list does not depend on the password field at all; as a list of
  strings it holds the password only when the password is also the user name, the host
  or one of the four flags. Every run starts with these two \<open>spawn\<close> calls, the
  compressor with no argument and no environment of its own.
\<close>

theorem pgdump_arguments:
  "(connectionType (config w) \<noteq> ''url'' \<longrightarrow>
      pgdump_args (config w) =
        [''-U'', username (config w), ''-h'', host (config w), ''--clean'', ''--if-exists'']
      \<and> pgdump_env w = [(''PATH'', env_PATH w), (''PGPASSWORD'', Some (password (config w)))]
      \<and> map_of (child_env (pgdump_env w)) ''PGPASSWORD'' = Some (password (config w))
      \<and> (password (config w) \<notin>
            {''-U'', username (config w), ''-h'', host (config w), ''--clean'', ''--if-exists''}
          \<longrightarrow> password (config w) \<notin> set (pgdump_args (config w))))
   \<and> (connectionType (config w) = ''url'' \<longrightarrow>
      pgdump_args (config w) = [url (config w), ''--clean'', ''--if-exists'']
      \<and> pgdump_env w = [(''PATH'', env_PATH w), (''PGPASSWORD'', None)]
      \<and> map_of (child_env (pgdump_env w)) ''PGPASSWORD'' = None)
   \<and> pgdump_args ((config w)\<lparr>password := pw\<rparr>) = pgdump_args (config w)
   \<and> (\<exists>rest. calls (snd (handleBackupDatabase w evs st)) =
          calls st @ Spawn ''pg_dumpall'' (pgdump_args (config w)) (Some (pgdump_env w))
                   # Spawn ''gzip'' [] None # rest)"
proof -
  have host: "connectionType (config w) \<noteq> ''url'' \<Longrightarrow>
      pgdump_args (config w) =
        [''-U'', username (config w), ''-h'', host (config w), ''--clean'', ''--if-exists'']
      \<and> pgdump_env w = [(''PATH'', env_PATH w), (''PGPASSWORD'', Some (password (config w)))]
      \<and> map_of (child_env (pgdump_env w)) ''PGPASSWORD'' = Some (password (config w))"
    by (cases "env_PATH w")
      (simp_all add: pgdump_args_def databaseParams_def isUrlConnection_def pgdump_env_def
        child_env_def List.map_filter_simps)
  have url: "connectionType (config w) = ''url'' \<Longrightarrow>
      pgdump_args (config w) = [url (config w), ''--clean'', ''--if-exists'']
      \<and> pgdump_env w = [(''PATH'', env_PATH w), (''PGPASSWORD'', None)]
      \<and> map_of (child_env (pgdump_env w)) ''PGPASSWORD'' = None"
    by (cases "env_PATH w")
      (simp_all add: pgdump_args_def databaseParams_def isUrlConnection_def pgdump_env_def
        child_env_def List.map_filter_simps)
  have indep: "pgdump_args ((config w)\<lparr>password := pw\<rparr>) = pgdump_args (config w)"
    by (simp add: pgdump_args_def databaseParams_def isUrlConnection_def)
  have "prefix (calls (system (start_pipeline w st))) (calls (snd (handleBackupDatabase w evs st)))"
    by (rule calls_handleBackupDatabase)
  then obtain cs where "calls (snd (handleBackupDatabase w evs st)) =
      calls (system (start_pipeline w st)) @ cs"
    by (auto simp: prefix_def)
  then have spawned: "\<exists>rest. calls (snd (handleBackupDatabase w evs st)) =
          calls st @ Spawn ''pg_dumpall'' (pgdump_args (config w)) (Some (pgdump_env w))
                   # Spawn ''gzip'' [] None # rest"
    by (simp add: calls_start_pipeline)
  from host url indep spawned show ?thesis
    by auto
qed

theorem pgdump_arguments_witness:
  "connectionType (config example_world) \<noteq> ''url''
   \<and> pgdump_args (config example_world) =
        [''-U'', ''postgres'', ''-h'', ''database'', ''--clean'', ''--if-exists'']
   \<and> ''secret'' \<notin> set (pgdump_args (config example_world))
   \<and> pgdump_env example_world = [(''PATH'', Some ''/usr/bin''), (''PGPASSWORD'', Some ''secret'')]
   \<and> connectionType (config (example_world\<lparr>config := example_config_url\<rparr>)) = ''url''
   \<and> pgdump_args (config (example_world\<lparr>config := example_config_url\<rparr>)) =
        [''postgres://db/immich'', ''--clean'', ''--if-exists'']
   \<and> map_of (child_env (pgdump_env (example_world\<lparr>config := example_config_url\<rparr>)))
        ''PGPASSWORD'' = None"
proof -
  have h: "connectionType (config example_world) \<noteq> ''url''"
    by (simp add: example_world_def example_config_def)
  have u: "connectionType (config (example_world\<lparr>config := example_config_url\<rparr>)) = ''url''"
    by (simp add: example_config_url_def)
  have p: "password (config example_world) \<notin>
            {''-U'', username (config example_world), ''-h'', host (config example_world),
             ''--clean'', ''--if-exists''}"
    by (simp add: example_world_def example_config_def)
  from h p pgdump_arguments [of example_world "[]" "[]" example_sys]
  have a1: "pgdump_args (config example_world) =
        [''-U'', username (config example_world), ''-h'', host (config example_world),
         ''--clean'', ''--if-exists'']"
    and a2: "password (config example_world) \<notin> set (pgdump_args (config example_world))"
    and a3: "pgdump_env example_world =
        [(''PATH'', env_PATH example_world), (''PGPASSWORD'', Some (password (config example_world)))]"
    by blast+
  from u pgdump_arguments [of "example_world\<lparr>config := example_config_url\<rparr>" "[]" "[]" example_sys]
  have a4: "pgdump_args (config (example_world\<lparr>config := example_config_url\<rparr>)) =
        [url (config (example_world\<lparr>config := example_config_url\<rparr>)), ''--clean'', ''--if-exists'']"
    and a5: "map_of (child_env (pgdump_env (example_world\<lparr>config := example_config_url\<rparr>)))
        ''PGPASSWORD'' = None"
    by blast+
  have b1: "pgdump_args (config example_world) =
        [''-U'', ''postgres'', ''-h'', ''database'', ''--clean'', ''--if-exists'']"
    using a1 by (simp add: example_world_def example_config_def)
  have b2: "''secret'' \<notin> set (pgdump_args (config example_world))"
    using a2 by (simp add: example_world_def example_config_def)
  have b3: "pgdump_env example_world = [(''PATH'', Some ''/usr/bin''), (''PGPASSWORD'', Some ''secret'')]"
    using a3 by (simp add: example_world_def example_config_def)
  have b4: "pgdump_args (config (example_world\<lparr>config := example_config_url\<rparr>)) =
        [''postgres://db/immich'', ''--clean'', ''--if-exists'']"
    using a4 by (simp add: example_config_url_def)
  from h u b1 b2 b3 b4 a5 show ?thesis
    by blast
qed

section \<open>The pipeline\<close>

lemma await_settled: "settled s \<noteq> Pending \<Longrightarrow> await_promise w tmp es s = (s, es)"
  by (cases es) simp_all

lemma late_events_append:
  "late_events w tmp (es @ fs) s = late_events w tmp fs (late_events w tmp es s)"
  by (simp add: late_events_def)

text \<open>The state at the settlement and the events left over make up the whole trace.\<close>

lemma await_late_events:
  "await_promise w tmp es s = (s', late) \<Longrightarrow>
     \<exists>pre. es = pre @ late \<and> s' = late_events w tmp pre s"
proof (induction es arbitrary: s)
  case Nil
  then show ?case by simp
next
  case (Cons e es)
  show ?case
  proof (cases "settled s = Pending")
    case True
    with Cons.prems have "await_promise w tmp es (on_event w tmp e s) = (s', late)"
      by simp
    from Cons.IH [OF this] obtain pre where
      "es = pre @ late" "s' = late_events w tmp pre (on_event w tmp e s)"
      by blast
    then have "e # es = (e # pre) @ late \<and> s' = late_events w tmp (e # pre) s"
      by (simp add: late_events_Cons)
    then show ?thesis by blast
  next
    case False
    with Cons.prems have "s' = s" "late = e # es"
      by (simp_all add: await_settled)
    then have "e # es = [] @ late \<and> s' = late_events w tmp [] s"
      by simp
    then show ?thesis by blast
  qed
qed

lemma await_rejecting_event:
  assumes "e \<in> set es" and "\<And>s. settled (on_event w tmp e s) \<noteq> Pending"
  shows "settled (fst (await_promise w tmp es s)) \<noteq> Pending"
  using assms(1)
proof (induction es arbitrary: s)
  case Nil
  then show ?case by simp
next
  case (Cons e' es)
  show ?case
  proof (cases "settled s = Pending")
    case False
    then show ?thesis by (simp add: await_settled)
  next
    case True
    show ?thesis
    proof (cases "e' = e")
      case True
      with assms(2) [of s] \<open>settled s = Pending\<close> show ?thesis
        by (simp add: await_settled)
    next
      case False
      with Cons.prems have "e \<in> set es" by simp
      from Cons.IH [OF this] \<open>settled s = Pending\<close> show ?thesis by simp
    qed
  qed
qed

text \<open>
  While the producer has not exited with status zero, no handler renames anything and
  the promise is not resolved.
\<close>

lemma producer_not_clean_on_event:
  assumes "exitCode s \<noteq> Some 0" and "settled s \<noteq> Resolved" and "e \<noteq> PgdumpExit (Some 0)"
  shows "exitCode (on_event w tmp e s) \<noteq> Some 0
         \<and> settled (on_event w tmp e s) \<noteq> Resolved
         \<and> system (on_event w tmp e s) = system s"
proof (cases e)
  case (GzipExit code)
  with assms show ?thesis by (simp add: reject_def)
qed (use assms in \<open>simp_all add: reject_def\<close>)

lemma producer_not_clean_late_events:
  assumes "exitCode s \<noteq> Some 0" and "settled s \<noteq> Resolved" and "PgdumpExit (Some 0) \<notin> set es"
  shows "exitCode (late_events w tmp es s) \<noteq> Some 0
         \<and> settled (late_events w tmp es s) \<noteq> Resolved
         \<and> system (late_events w tmp es s) = system s"
  using assms
proof (induction es arbitrary: s)
  case Nil
  then show ?case by simp
next
  case (Cons e es)
  from Cons.prems have ne: "e \<noteq> PgdumpExit (Some 0)" and rest: "PgdumpExit (Some 0) \<notin> set es"
    by auto
  from producer_not_clean_on_event [OF Cons.prems(1,2) ne, of w tmp]
  have 1: "exitCode (on_event w tmp e s) \<noteq> Some 0"
    and 2: "settled (on_event w tmp e s) \<noteq> Resolved"
    and 3: "system (on_event w tmp e s) = system s"
    by blast+
  from Cons.IH [OF 1 2 rest] 3 show ?case
    by (simp add: late_events_Cons)
qed

lemma start_pipeline_fields:
  "exitCode (start_pipeline w st) = None"
  "settled (start_pipeline w st) = (if pgdump_streams w \<and> gzip_streams w then Pending else Rejected)"
  by (simp_all add: start_pipeline_def Let_def reject_def)

lemma files_start_pipeline:
  "files (system (start_pipeline w st)) = files (createWriteStream (backupFilePath w) st)"
  by (simp add: start_pipeline_def Let_def spawn_def createWriteStream_def)

text \<open>
  C2. When the producer exits and every exit of the producer carries a non-zero status
  (or none, after a signal), the method returns \<open>FAILED\<close>, whatever else the trace holds,
  an exit of the compressor with status zero included. The run has made its two
  \<open>spawn\<close> calls and created the temporary file, and nothing more: no rename has been
  attempted.
\<close>

theorem producer_failure_returns_FAILED:
  assumes "PgdumpExit c \<in> set evs"
    and "\<forall>c'. PgdumpExit c' \<in> set evs \<longrightarrow> c' \<noteq> Some 0"
  shows "fst (handleBackupDatabase w evs st) = Returns FAILED
         \<and> calls (snd (handleBackupDatabase w evs st)) =
             calls st @ [Spawn ''pg_dumpall'' (pgdump_args (config w)) (Some (pgdump_env w)),
                         Spawn ''gzip'' [] None, CreateWriteStream (backupFilePath w)]
         \<and> filter is_rename (calls (snd (handleBackupDatabase w evs st))) =
             filter is_rename (calls st)
         \<and> files (snd (handleBackupDatabase w evs st)) =
             files (createWriteStream (backupFilePath w) st)"
proof -
  let ?tmp = "backupFilePath w"
  let ?h = "if pgdump_streams w \<and> gzip_streams w then evs else []"
  let ?s0 = "start_pipeline w st"
  obtain s late where a: "run_pipeline w evs st = (s, late)"
    by (cases "run_pipeline w evs st")
  then have aw: "await_promise w ?tmp ?h ?s0 = (s, late)"
    by (simp add: run_pipeline_def)
  from await_late_events [OF aw] obtain pre where
    pre: "?h = pre @ late" "s = late_events w ?tmp pre ?s0"
    by blast
  have clean: "PgdumpExit (Some 0) \<notin> set ?h"
    using assms(2) by auto
  have e0: "exitCode ?s0 \<noteq> Some 0" and r0: "settled ?s0 \<noteq> Resolved"
    by (simp_all add: start_pipeline_fields)
  have whole: "late_events w ?tmp late s = late_events w ?tmp ?h ?s0"
    using pre late_events_append [of w ?tmp pre late ?s0] by simp
  have "set pre \<subseteq> set (pre @ late)"
    by simp
  with pre(1) have "set pre \<subseteq> set ?h"
    by simp
  with clean have "PgdumpExit (Some 0) \<notin> set pre"
    by blast
  from producer_not_clean_late_events [OF e0 r0 this, of w ?tmp] pre(2)
  have s_unresolved: "settled s \<noteq> Resolved"
    by simp
  have s_settled: "settled s \<noteq> Pending"
  proof (cases "pgdump_streams w \<and> gzip_streams w")
    case True
    from assms have c: "c \<noteq> Some 0"
      by blast
    have rejecting: "\<And>s. settled (on_event w ?tmp (PgdumpExit c) s) \<noteq> Pending"
      using c by (simp add: reject_def)
    from True assms(1) have "PgdumpExit c \<in> set ?h"
      by simp
    from await_rejecting_event [OF this rejecting, of ?s0] aw show ?thesis
      by simp
  next
    case False
    then have "?h = []"
      by auto
    with aw have "s = ?s0"
      by simp
    with False show ?thesis
      by (simp add: start_pipeline_fields)
  qed
  from s_unresolved s_settled have rej: "settled s = Rejected"
    by (cases "settled s") simp_all
  have res: "handleBackupDatabase w evs st = (Returns FAILED, system (late_events w ?tmp late s))"
    by (rule handle_Rejected [OF a rej])
  have sys: "system (late_events w ?tmp late s) = system ?s0"
    using producer_not_clean_late_events [OF e0 r0 clean, of w ?tmp] whole by simp
  from res sys show ?thesis
    by (simp add: calls_start_pipeline files_start_pipeline)
qed

theorem producer_failure_returns_FAILED_witness:
  "PgdumpExit (Some 1) \<in> set [PgdumpStderr ''connection refused'', PgdumpExit (Some 1), GzipExit (Some 0)]
   \<and> fst (handleBackupDatabase example_world
        [PgdumpStderr ''connection refused'', PgdumpExit (Some 1), GzipExit (Some 0)] example_sys)
       = Returns FAILED
   \<and> filter is_rename (calls (snd (handleBackupDatabase example_world
        [PgdumpStderr ''connection refused'', PgdumpExit (Some 1), GzipExit (Some 0)] example_sys)))
       = []"
proof -
  let ?evs = "[PgdumpStderr ''connection refused'', PgdumpExit (Some 1), GzipExit (Some 0)]"
  have h1: "PgdumpExit (Some 1) \<in> set ?evs"
    by simp
  have h2: "\<forall>c'. PgdumpExit c' \<in> set ?evs \<longrightarrow> c' \<noteq> Some 0"
    by simp
  have "filter is_rename (calls example_sys) = []"
    by (simp add: example_sys_def)
  with producer_failure_returns_FAILED [OF h1 h2, of example_world example_sys] h1
  show ?thesis
    by simp
qed

section \<open>When the sweep runs\<close>

lemma unlinks_on_event:
  "filter is_unlink (calls (system (on_event w tmp e s))) = filter is_unlink (calls (system s))"
proof (cases e)
  case (GzipExit code)
  then show ?thesis
    by (simp add: rename_def)
qed simp_all

lemma unlinks_late_events:
  "filter is_unlink (calls (system (late_events w tmp es s))) = filter is_unlink (calls (system s))"
proof (induction es arbitrary: s)
  case Nil
  show ?case by simp
next
  case (Cons e es)
  from Cons.IH [of "on_event w tmp e s"] show ?case
    by (simp add: late_events_Cons unlinks_on_event)
qed

lemma unlinks_start_pipeline:
  "filter is_unlink (calls (system (start_pipeline w st))) = filter is_unlink (calls st)"
  by (simp add: calls_start_pipeline)

lemma unlinks_run_pipeline:
  "filter is_unlink (calls (system (fst (run_pipeline w evs st)))) = filter is_unlink (calls st)"
proof -
  obtain s late where a: "run_pipeline w evs st = (s, late)"
    by (cases "run_pipeline w evs st")
  then have "await_promise w (backupFilePath w)
      (if pgdump_streams w \<and> gzip_streams w then evs else []) (start_pipeline w st) = (s, late)"
    by (simp add: run_pipeline_def)
  from await_late_events [OF this] obtain pre where
    "s = late_events w (backupFilePath w) pre (start_pipeline w st)"
    by blast
  with a show ?thesis
    by (simp add: unlinks_late_events unlinks_start_pipeline)
qed

text \<open>No handler removes a file other than the temporary file of the run.\<close>

lemma files_on_event_keeps:
  assumes "p \<in> set (files (system s))" and "p \<noteq> tmp"
  shows "p \<in> set (files (system (on_event w tmp e s)))"
proof (cases e)
  case (GzipExit code)
  with assms show ?thesis
    by (simp add: rename_def)
qed (use assms in simp_all)

lemma files_late_events_keeps:
  assumes "p \<in> set (files (system s))" and "p \<noteq> tmp"
  shows "p \<in> set (files (system (late_events w tmp es s)))"
  using assms(1)
proof (induction es arbitrary: s)
  case Nil
  then show ?case by simp
next
  case (Cons e es)
  from files_on_event_keeps [OF Cons.prems assms(2), of w e]
  have "p \<in> set (files (system (on_event w tmp e s)))" .
  from Cons.IH [OF this] show ?case
    by (simp add: late_events_Cons)
qed

lemma files_start_pipeline_keeps:
  "p \<in> set (files st) \<Longrightarrow> p \<in> set (files (system (start_pipeline w st)))"
  by (simp add: files_start_pipeline createWriteStream_def)

text \<open>
  C6, as the code has it. Whether the sweep runs is decided by the promise of the
  pipeline, and by nothing else. A run whose promise is rejected (a missing stream, an
  \<open>'error'\<close> event, a non-zero exit, a refused rename) returns \<open>FAILED\<close> without a
  sweep: it makes no \<open>unlink\<close> call, and every file that existed before the run, other
  than one at the path of the run's own temporary file, still exists after it. The same
  holds for a run whose promise is never settled, which never returns. A run whose
  promise is resolved runs the sweep once, over the system as the pipeline left it: its
  \<open>unlink\<close> calls are those of that one sweep, and it returns \<open>SUCCESS\<close> when the sweep
  completes and throws the error of the sweep otherwise. Hence \<open>FAILED\<close> is returned
  exactly after a rejected promise, and \<open>SUCCESS\<close> or an error exactly after a resolved
  one.
\<close>

theorem sweep_runs_after_resolved_pipeline_only:
  "(settled (fst (run_pipeline w evs st)) = Rejected \<longrightarrow>
      fst (handleBackupDatabase w evs st) = Returns FAILED
      \<and> filter is_unlink (calls (snd (handleBackupDatabase w evs st))) = filter is_unlink (calls st)
      \<and> (\<forall>p\<in>set (files st). p \<noteq> backupFilePath w \<longrightarrow>
            p \<in> set (files (snd (handleBackupDatabase w evs st)))))
   \<and> (settled (fst (run_pipeline w evs st)) = Pending \<longrightarrow>
      fst (handleBackupDatabase w evs st) = NeverReturns
      \<and> filter is_unlink (calls (snd (handleBackupDatabase w evs st))) = filter is_unlink (calls st)
      \<and> (\<forall>p\<in>set (files st). p \<noteq> backupFilePath w \<longrightarrow>
            p \<in> set (files (snd (handleBackupDatabase w evs st)))))
   \<and> (settled (fst (run_pipeline w evs st)) = Resolved \<longrightarrow>
      fst (handleBackupDatabase w evs st) =
        (case fst (cleanupDatabaseBackups w (system (fst (run_pipeline w evs st)))) of
           Inl e \<Rightarrow> Throws e | Inr n \<Rightarrow> Returns SUCCESS)
      \<and> filter is_unlink (calls (snd (handleBackupDatabase w evs st))) =
          filter is_unlink
            (calls (snd (cleanupDatabaseBackups w (system (fst (run_pipeline w evs st)))))))
   \<and> (fst (handleBackupDatabase w evs st) = Returns FAILED \<longleftrightarrow>
        settled (fst (run_pipeline w evs st)) = Rejected)
   \<and> (fst (handleBackupDatabase w evs st) = NeverReturns \<longleftrightarrow>
        settled (fst (run_pipeline w evs st)) = Pending)
   \<and> (fst (handleBackupDatabase w evs st) = Returns SUCCESS
        \<or> (\<exists>e. fst (handleBackupDatabase w evs st) = Throws e) \<longleftrightarrow>
        settled (fst (run_pipeline w evs st)) = Resolved)"
proof -
  let ?tmp = "backupFilePath w"
  obtain s late where a: "run_pipeline w evs st = (s, late)"
    by (cases "run_pipeline w evs st")
  have u: "filter is_unlink (calls (system s)) = filter is_unlink (calls st)"
    using unlinks_run_pipeline [of w evs st] a by simp
  from a have "await_promise w ?tmp
      (if pgdump_streams w \<and> gzip_streams w then evs else []) (start_pipeline w st) = (s, late)"
    by (simp add: run_pipeline_def)
  from await_late_events [OF this] obtain pre where
    s: "s = late_events w ?tmp pre (start_pipeline w st)"
    by blast
  have keep_s: "p \<in> set (files (system s))" if "p \<in> set (files st)" and "p \<noteq> ?tmp" for p
  proof -
    from that(1) have "p \<in> set (files (system (start_pipeline w st)))"
      by (rule files_start_pipeline_keeps)
    from files_late_events_keeps [OF this that(2), of w pre] show ?thesis
      unfolding s .
  qed
  have keep_s': "\<forall>p\<in>set (files st). p \<noteq> ?tmp \<longrightarrow> p \<in> set (files (system s))"
    using keep_s by blast
  have keep: "\<forall>p\<in>set (files st). p \<noteq> ?tmp \<longrightarrow>
                p \<in> set (files (system (late_events w ?tmp late s)))"
    using keep_s files_late_events_keeps by blast
  show ?thesis
  proof (cases "settled s")
    case Pending
    from handle_Pending [OF a Pending]
    have h: "handleBackupDatabase w evs st = (NeverReturns, system s)" .
    have 1: "fst (handleBackupDatabase w evs st) = NeverReturns"
      and 2: "snd (handleBackupDatabase w evs st) = system s"
      and 3: "fst (run_pipeline w evs st) = s"
      unfolding h a by simp_all
    show ?thesis
      unfolding 1 2 3 using Pending u keep_s' by simp
  next
    case Rejected
    from handle_Rejected [OF a Rejected]
    have h: "handleBackupDatabase w evs st = (Returns FAILED, system (late_events w ?tmp late s))" .
    have 1: "fst (handleBackupDatabase w evs st) = Returns FAILED"
      and 2: "snd (handleBackupDatabase w evs st) = system (late_events w ?tmp late s)"
      and 3: "fst (run_pipeline w evs st) = s"
      unfolding h a by simp_all
    have 4: "filter is_unlink (calls (system (late_events w ?tmp late s))) = filter is_unlink (calls st)"
      using u by (simp add: unlinks_late_events)
    show ?thesis
      unfolding 1 2 3 using Rejected 4 keep by simp
  next
    case Resolved
    obtain r st' where c: "cleanupDatabaseBackups w (system s) = (r, st')"
      by (cases "cleanupDatabaseBackups w (system s)")
    have "filter is_unlink (calls (system (late_events w ?tmp late (s\<lparr>system := st'\<rparr>))))
          = filter is_unlink (calls st')"
      by (simp add: unlinks_late_events)
    then have 4: "filter is_unlink (calls (snd (handleBackupDatabase w evs st))) =
        filter is_unlink (calls (snd (cleanupDatabaseBackups w (system s))))"
      using handle_Resolved [OF a Resolved c] c by simp
    have 1: "fst (handleBackupDatabase w evs st) =
        (case fst (cleanupDatabaseBackups w (system s)) of
           Inl e \<Rightarrow> Throws e | Inr n \<Rightarrow> Returns SUCCESS)"
      using handle_Resolved [OF a Resolved c] c by simp
    have 3: "fst (run_pipeline w evs st) = s"
      unfolding a by simp
    have 5: "fst (handleBackupDatabase w evs st) \<noteq> Returns FAILED"
      "fst (handleBackupDatabase w evs st) \<noteq> NeverReturns"
      "fst (handleBackupDatabase w evs st) = Returns SUCCESS
        \<or> (\<exists>e. fst (handleBackupDatabase w evs st) = Throws e)"
      unfolding 1 by (cases "fst (cleanupDatabaseBackups w (system s))"; simp)+
    show ?thesis
      unfolding 3 using Resolved 1 4 5 by simp
  qed
qed

theorem sweep_runs_after_resolved_pipeline_only_witness:
  "settled (fst (run_pipeline example_world [PgdumpExit (Some 1), GzipExit (Some 0)] example_sys))
     = Rejected
   \<and> fst (handleBackupDatabase example_world [PgdumpExit (Some 1), GzipExit (Some 0)] example_sys)
     = Returns FAILED
   \<and> filter is_unlink (calls (snd (handleBackupDatabase example_world
        [PgdumpExit (Some 1), GzipExit (Some 0)] example_sys))) = []
   \<and> settled (fst (run_pipeline example_world [PgdumpExit (Some 0), GzipExit (Some 0)] example_sys))
     = Resolved
   \<and> fst (handleBackupDatabase example_world [PgdumpExit (Some 0), GzipExit (Some 0)] example_sys)
     = Returns SUCCESS
   \<and> filter is_unlink (calls (snd (handleBackupDatabase example_world
        [PgdumpExit (Some 0), GzipExit (Some 0)] example_sys))) =
       [Unlink ''upload/backups/immich-db-backup-200.sql.gz'' True,
        Unlink ''upload/backups/immich-db-backup-100.sql.gz'' True,
        Unlink ''upload/backups/immich-db-backup-400.sql.gz.tmp'' True]
   \<and> settled (fst (run_pipeline
        (example_world\<lparr>unlink_fails := \<lambda>p. p = ''upload/backups/immich-db-backup-200.sql.gz''\<rparr>)
        [PgdumpExit (Some 0), GzipExit (Some 0)] example_sys))
     = Resolved
   \<and> fst (handleBackupDatabase
        (example_world\<lparr>unlink_fails := \<lambda>p. p = ''upload/backups/immich-db-backup-200.sql.gz''\<rparr>)
        [PgdumpExit (Some 0), GzipExit (Some 0)] example_sys)
     = Throws (UnlinkError ''upload/backups/immich-db-backup-200.sql.gz'')"
proof -
  let ?bad = "[PgdumpExit (Some 1), GzipExit (Some 0)]"
  let ?good = "[PgdumpExit (Some 0), GzipExit (Some 0)]"
  let ?w = "example_world\<lparr>unlink_fails := \<lambda>p. p = ''upload/backups/immich-db-backup-200.sql.gz''\<rparr>"
  have f: "settled (fst (run_pipeline example_world ?bad example_sys)) = Rejected"
    by code_simp
  have g: "settled (fst (run_pipeline example_world ?good example_sys)) = Resolved"
    by code_simp
  have t: "settled (fst (run_pipeline ?w ?good example_sys)) = Resolved"
    by code_simp
  have c: "filter is_unlink (calls example_sys) = []"
    by (simp add: example_sys_def)
  have d: "filter is_unlink
            (calls (snd (cleanupDatabaseBackups example_world
               (system (fst (run_pipeline example_world ?good example_sys)))))) =
       [Unlink ''upload/backups/immich-db-backup-200.sql.gz'' True,
        Unlink ''upload/backups/immich-db-backup-100.sql.gz'' True,
        Unlink ''upload/backups/immich-db-backup-400.sql.gz.tmp'' True]"
    by code_simp
  have n: "fst (cleanupDatabaseBackups example_world
               (system (fst (run_pipeline example_world ?good example_sys)))) = Inr 3"
    by code_simp
  have e: "fst (cleanupDatabaseBackups ?w (system (fst (run_pipeline ?w ?good example_sys)))) =
             Inl (UnlinkError ''upload/backups/immich-db-backup-200.sql.gz'')"
    by code_simp
  from sweep_runs_after_resolved_pipeline_only [of example_world ?bad example_sys] f c
  have 1: "fst (handleBackupDatabase example_world ?bad example_sys) = Returns FAILED"
    and 2: "filter is_unlink (calls (snd (handleBackupDatabase example_world ?bad example_sys))) = []"
    by simp_all
  from sweep_runs_after_resolved_pipeline_only [of example_world ?good example_sys] g d n
  have 3: "fst (handleBackupDatabase example_world ?good example_sys) = Returns SUCCESS"
    and 4: "filter is_unlink (calls (snd (handleBackupDatabase example_world ?good example_sys))) =
       [Unlink ''upload/backups/immich-db-backup-200.sql.gz'' True,
        Unlink ''upload/backups/immich-db-backup-100.sql.gz'' True,
        Unlink ''upload/backups/immich-db-backup-400.sql.gz.tmp'' True]"
    by simp_all
  from sweep_runs_after_resolved_pipeline_only [of ?w ?good example_sys] t e
  have 5: "fst (handleBackupDatabase ?w ?good example_sys) =
             Throws (UnlinkError ''upload/backups/immich-db-backup-200.sql.gz'')"
    by simp
  from f g t 1 2 3 4 5 show ?thesis
    by blast
qed

text \<open>
  The claim as the spec words it fails on a failed run: the producer exits with status
  1, the method returns \<open>FAILED\<close>, and nothing has been deleted. The orphan
  \<open>immich-db-backup-400.sql.gz.tmp\<close> and the temporary file of the failed run itself are
  both still there, although a sweep over this very system would remove both.
\<close>

theorem no_sweep_after_failed_run:
  "handleBackupDatabase example_world [PgdumpExit (Some 1), GzipExit (Some 0)] example_sys =
     (Returns FAILED,
      \<lparr>files = [''upload/backups/immich-db-backup-100.sql.gz'',
                ''upload/backups/immich-db-backup-200.sql.gz'',
                ''upload/backups/immich-db-backup-300.sql.gz'',
                ''upload/backups/immich-db-backup-400.sql.gz.tmp'',
                ''upload/backups/notes.txt'',
                ''upload/profile.jpg'',
                ''upload/backups/immich-db-backup-500.sql.gz.tmp''],
       calls = [Spawn ''pg_dumpall''
                  [''-U'', ''postgres'', ''-h'', ''database'', ''--clean'', ''--if-exists'']
                  (Some [(''PATH'', Some ''/usr/bin''), (''PGPASSWORD'', Some ''secret'')]),
                Spawn ''gzip'' [] None,
                CreateWriteStream ''upload/backups/immich-db-backup-500.sql.gz.tmp'']\<rparr>)
   \<and> files (snd (cleanupDatabaseBackups example_world
        (snd (handleBackupDatabase example_world [PgdumpExit (Some 1), GzipExit (Some 0)]
                example_sys)))) =
       [''upload/backups/immich-db-backup-200.sql.gz'',
        ''upload/backups/immich-db-backup-300.sql.gz'',
        ''upload/backups/notes.txt'',
        ''upload/profile.jpg'']"
  by code_simp

section \<open>The filename patterns\<close>

lemma takeWhile_digits:
  "list_all is_digit ds \<Longrightarrow> \<not> is_digit c \<Longrightarrow> takeWhile is_digit (ds @ c # r) = ds"
  by (induction ds) simp_all

lemma dropWhile_digits:
  "list_all is_digit ds \<Longrightarrow> \<not> is_digit c \<Longrightarrow> dropWhile is_digit (ds @ c # r) = c # r"
  by (induction ds) simp_all

lemma dot_no_digit [simp]: "\<not> is_digit CHR ''.''"
  by (simp add: is_digit_def)

text \<open>A match at the first character, said without the matcher.\<close>

lemma match_here_iff:
  assumes "ext = c # r" and "\<not> is_digit c"
  shows "match_here ext s \<longleftrightarrow> (\<exists>ds. digits ds \<and> s = ''immich-db-backup-'' @ ds @ ext)"
proof
  assume m: "match_here ext s"
  let ?t = "drop (length ''immich-db-backup-'') s"
  from m have p: "prefix ''immich-db-backup-'' s"
    and d: "takeWhile is_digit ?t \<noteq> []" and e: "dropWhile is_digit ?t = ext"
    by (simp_all add: match_here_def Let_def)
  from p have "s = ''immich-db-backup-'' @ ?t"
    by (metis append_eq_conv_conj prefix_def)
  moreover have "?t = takeWhile is_digit ?t @ ext"
    using e by (metis takeWhile_dropWhile_id)
  moreover have "digits (takeWhile is_digit ?t)"
    using d by (simp add: digits_def list_all_iff) (meson set_takeWhileD)
  ultimately show "\<exists>ds. digits ds \<and> s = ''immich-db-backup-'' @ ds @ ext"
    by metis
next
  assume "\<exists>ds. digits ds \<and> s = ''immich-db-backup-'' @ ds @ ext"
  then obtain ds where ds: "digits ds" and s: "s = ''immich-db-backup-'' @ ds @ ext"
    by blast
  from ds have a: "list_all is_digit ds" and n: "ds \<noteq> []"
    by (simp_all add: digits_def)
  have "drop (length ''immich-db-backup-'') s = ds @ c # r"
    using s assms(1) by simp
  with takeWhile_digits [OF a assms(2), of r] dropWhile_digits [OF a assms(2), of r] n s assms(1)
  show "match_here ext s"
    by (simp add: match_here_def Let_def)
qed

lemma wf_final_iff: "wf_final f \<longleftrightarrow> (\<exists>ds. digits ds \<and> f = final_name ds)"
  unfolding wf_final_def final_name_def
  by (rule match_here_iff [of _ "CHR ''.''" "''sql.gz''"]) simp_all

lemma wf_temp_iff: "wf_temp f \<longleftrightarrow> (\<exists>ds. digits ds \<and> f = temp_name ds)"
  unfolding wf_temp_def temp_name_def
  by (rule match_here_iff [of _ "CHR ''.''" "''sql.gz.tmp''"]) simp_all

text \<open>The search finds a match exactly when some suffix of the name matches.\<close>

lemma regex_search_iff: "regex_search ext s \<longleftrightarrow> (\<exists>p t. s = p @ t \<and> match_here ext t)"
proof (induction s)
  case Nil
  show ?case by simp
next
  case (Cons c cs)
  show ?case
  proof
    assume "regex_search ext (c # cs)"
    then consider "match_here ext (c # cs)" | "regex_search ext cs"
      by auto
    then show "\<exists>p t. c # cs = p @ t \<and> match_here ext t"
    proof cases
      case 1
      then have "c # cs = [] @ (c # cs) \<and> match_here ext (c # cs)"
        by simp
      then show ?thesis by blast
    next
      case 2
      with Cons.IH obtain p t where "cs = p @ t" "match_here ext t"
        by blast
      then have "c # cs = (c # p) @ t \<and> match_here ext t"
        by simp
      then show ?thesis by blast
    qed
  next
    assume "\<exists>p t. c # cs = p @ t \<and> match_here ext t"
    then obtain p t where pt: "c # cs = p @ t" "match_here ext t"
      by blast
    show "regex_search ext (c # cs)"
    proof (cases p)
      case Nil
      with pt have "match_here ext (c # cs)"
        by simp
      then show ?thesis by simp
    next
      case (Cons a p')
      with pt have "cs = p' @ t"
        by simp
      with pt(2) Cons.IH show ?thesis
        by auto
    qed
  qed
qed

lemma match_here_search: "match_here ext s \<Longrightarrow> regex_search ext s"
  by (cases s) simp_all

lemma wf_final_is_backup: "wf_final f \<Longrightarrow> is_backup f"
  by (simp add: wf_final_def is_backup_def match_here_search)

lemma wf_temp_is_failed_backup: "wf_temp f \<Longrightarrow> is_failed_backup f"
  by (simp add: wf_temp_def is_failed_backup_def match_here_search)

text \<open>What the two expressions of the sweep accept: any prefix may precede the name.\<close>

lemma is_backup_iff:
  "is_backup f \<longleftrightarrow> (\<exists>p ds. digits ds \<and> f = p @ final_name ds)"
proof -
  have "is_backup f \<longleftrightarrow> (\<exists>p t. f = p @ t \<and> wf_final t)"
    by (simp add: is_backup_def wf_final_def regex_search_iff)
  then show ?thesis
    by (auto simp: wf_final_iff)
qed

lemma is_failed_backup_iff:
  "is_failed_backup f \<longleftrightarrow> (\<exists>p ds. digits ds \<and> f = p @ temp_name ds)"
proof -
  have "is_failed_backup f \<longleftrightarrow> (\<exists>p t. f = p @ t \<and> wf_temp t)"
    by (simp add: is_failed_backup_def wf_temp_def regex_search_iff)
  then show ?thesis
    by (auto simp: wf_temp_iff)
qed

lemma backup_not_failed: "is_backup f \<Longrightarrow> \<not> is_failed_backup f"
proof
  assume b: "is_backup f" and t: "is_failed_backup f"
  from b obtain p ds where "f = p @ final_name ds"
    unfolding is_backup_iff by blast
  then have z: "last f = CHR ''z''"
    by (simp add: final_name_def)
  from t obtain q es where "f = q @ temp_name es"
    unfolding is_failed_backup_iff by blast
  then have "last f = CHR ''p''"
    by (simp add: temp_name_def)
  with z show False by simp
qed

section \<open>The name of the temporary file and its final name\<close>

lemma digit_chars: "n < 10 \<Longrightarrow> is_digit (''0123456789'' ! n)"
proof -
  assume "n < 10"
  then have "n < length ''0123456789''"
    by simp
  then have "''0123456789'' ! n \<in> set ''0123456789''"
    by (rule nth_mem)
  then show ?thesis
    by (simp only: is_digit_def)
qed

lemma digits_show_nat: "digits (show_nat n)"
proof (induction n rule: show_nat.induct)
  case (1 n)
  show ?case
  proof (cases "n < 10")
    case True
    then show ?thesis
      by (subst show_nat.simps) (simp add: digits_def digit_chars)
  next
    case False
    with 1 have "digits (show_nat (n div 10))"
      by simp
    moreover have "is_digit (''0123456789'' ! (n mod 10))"
      by (rule digit_chars) simp
    ultimately show ?thesis
      using False by (subst show_nat.simps) (simp add: digits_def)
  qed
qed

lemma prefix_slash:
  assumes "prefix pat (xs @ CHR ''/'' # ys)" and "CHR ''/'' \<notin> set pat"
  shows "prefix pat xs"
proof -
  from assms(1) have "prefix pat xs \<or> (\<exists>us. pat = xs @ us \<and> prefix us (CHR ''/'' # ys))"
    by (simp add: prefix_append)
  then show ?thesis
  proof
    assume "prefix pat xs"
    then show ?thesis .
  next
    assume "\<exists>us. pat = xs @ us \<and> prefix us (CHR ''/'' # ys)"
    then obtain us where us: "pat = xs @ us" "prefix us (CHR ''/'' # ys)"
      by blast
    show ?thesis
    proof (cases us)
      case Nil
      with us(1) show ?thesis by simp
    next
      case (Cons u us')
      with us(2) have "u = CHR ''/''"
        by simp
      with Cons us(1) have "CHR ''/'' \<in> set pat"
        by simp
      with assms(2) show ?thesis by simp
    qed
  qed
qed

text \<open>
  A folder without \<open>.tmp\<close> in its path is copied unchanged by \<open>replace\<close>; the first
  occurrence is then looked for in the file name.
\<close>

lemma replace_first_folder:
  assumes "\<not> contains ''.tmp'' folder"
  shows "replace_first ''.tmp'' [] (folder @ CHR ''/'' # name) =
           folder @ CHR ''/'' # replace_first ''.tmp'' [] name"
  using assms
proof (induction folder)
  case Nil
  show ?case by simp
next
  case (Cons c cs)
  from Cons.prems have np: "\<not> prefix ''.tmp'' (c # cs)" and nc: "\<not> contains ''.tmp'' cs"
    by simp_all
  have "\<not> prefix ''.tmp'' ((c # cs) @ CHR ''/'' # name)"
    using np prefix_slash [of "''.tmp''" "c # cs" name] by auto
  then have "\<not> prefix ''.tmp'' (c # (cs @ CHR ''/'' # name))"
    by (simp only: append_Cons simp_thms)
  then have "(if prefix ''.tmp'' (c # (cs @ CHR ''/'' # name))
             then [] @ drop (length ''.tmp'') (c # (cs @ CHR ''/'' # name))
             else c # replace_first ''.tmp'' [] (cs @ CHR ''/'' # name)) =
               c # replace_first ''.tmp'' [] (cs @ CHR ''/'' # name)"
    by (rule if_not_P)
  then have "replace_first ''.tmp'' [] (c # (cs @ CHR ''/'' # name)) =
               c # replace_first ''.tmp'' [] (cs @ CHR ''/'' # name)"
    by (simp only: replace_first.simps(2))
  with Cons.IH [OF nc] show ?case
    by (simp only: append_Cons)
qed

lemma replace_first_digits:
  "list_all is_digit ds \<Longrightarrow>
     replace_first ''.tmp'' [] (ds @ ''.sql.gz.tmp'') = ds @ ''.sql.gz''"
proof (induction ds)
  case Nil
  show ?case by simp
next
  case (Cons d ds)
  then have "d \<noteq> CHR ''.''"
    by auto
  with Cons show ?case
    by simp
qed

lemma replace_first_temp_name:
  "digits ds \<Longrightarrow> replace_first ''.tmp'' [] (temp_name ds) = final_name ds"
  by (simp add: temp_name_def final_name_def digits_def replace_first_digits)

lemma replace_first_backupFilePath:
  assumes "\<not> contains ''.tmp'' (baseFolder w)"
  shows "replace_first ''.tmp'' [] (backupFilePath w) =
           path_join (baseFolder w) (final_name (show_nat (now w)))"
proof -
  have "backupFilePath w = baseFolder w @ CHR ''/'' # temp_name (show_nat (now w))"
    by (simp add: backupFilePath_def path_join_def temp_name_def)
  with replace_first_folder [OF assms] replace_first_temp_name [OF digits_show_nat]
  show ?thesis
    by (simp add: path_join_def)
qed

section \<open>A clean run publishes its artifact\<close>

lemma stderr_on_event:
  "is_stderr e \<Longrightarrow>
     system (on_event w tmp e s) = system s \<and> settled (on_event w tmp e s) = settled s
     \<and> exitCode (on_event w tmp e s) = exitCode s"
  by (cases e) simp_all

lemma stderr_late_events:
  "list_all is_stderr es \<Longrightarrow>
     system (late_events w tmp es s) = system s \<and> settled (late_events w tmp es s) = settled s
     \<and> exitCode (late_events w tmp es s) = exitCode s"
proof (induction es arbitrary: s)
  case Nil
  show ?case by simp
next
  case (Cons e es)
  then have "is_stderr e" "list_all is_stderr es"
    by simp_all
  from stderr_on_event [OF this(1), of w tmp s] Cons.IH [OF this(2), of "on_event w tmp e s"]
  show ?case
    by (simp add: late_events_Cons)
qed

lemma await_stderr:
  "list_all is_stderr es \<Longrightarrow> settled s = Pending \<Longrightarrow>
     await_promise w tmp (es @ rest) s = await_promise w tmp rest (late_events w tmp es s)"
proof (induction es arbitrary: s)
  case Nil
  show ?case by simp
next
  case (Cons e es)
  then have e: "is_stderr e" and es: "list_all is_stderr es"
    by simp_all
  from stderr_on_event [OF e, of w tmp s] Cons.prems(2)
  have "settled (on_event w tmp e s) = Pending"
    by simp
  from Cons.IH [OF es this] Cons.prems(2) show ?case
    by (simp add: late_events_Cons)
qed

text \<open>
  The pipeline of a clean run, step by step: the producer exits with status zero, then
  the compressor does, nothing but diagnostics comes before, and the rename is accepted.
\<close>

lemma clean_run_pipeline:
  assumes "pgdump_streams w" and "gzip_streams w"
    and "list_all is_stderr pre" and "list_all is_stderr mid"
    and "\<not> rename_fails w (backupFilePath w) (replace_first ''.tmp'' [] (backupFilePath w))"
  shows "\<exists>s. run_pipeline w (pre @ PgdumpExit (Some 0) # mid @ GzipExit (Some 0) # post) st = (s, post)
           \<and> settled s = Resolved
           \<and> system s =
               \<lparr>files = removeAll (backupFilePath w)
                          (removeAll (replace_first ''.tmp'' [] (backupFilePath w))
                             (files (createWriteStream (backupFilePath w) st)))
                        @ [replace_first ''.tmp'' [] (backupFilePath w)],
                calls = calls st @
                  [Spawn ''pg_dumpall'' (pgdump_args (config w)) (Some (pgdump_env w)),
                   Spawn ''gzip'' [] None, CreateWriteStream (backupFilePath w),
                   Rename (backupFilePath w) (replace_first ''.tmp'' [] (backupFilePath w)) True]\<rparr>"
proof -
  let ?tmp = "backupFilePath w"
  let ?dst = "replace_first ''.tmp'' [] ?tmp"
  let ?s0 = "start_pipeline w st"
  let ?s1 = "late_events w ?tmp pre ?s0"
  let ?s2 = "on_event w ?tmp (PgdumpExit (Some 0)) ?s1"
  let ?s3 = "late_events w ?tmp mid ?s2"
  let ?s4 = "on_event w ?tmp (GzipExit (Some 0)) ?s3"
  have p0: "settled ?s0 = Pending" and x0: "exitCode ?s0 = None"
    using assms(1,2) by (simp_all add: start_pipeline_fields)
  have f1: "system ?s1 = system ?s0" "settled ?s1 = Pending"
    using stderr_late_events [OF assms(3), of w ?tmp ?s0] p0 by simp_all
  have f2: "system ?s2 = system ?s0" "settled ?s2 = Pending" "exitCode ?s2 = Some 0"
    using f1 by simp_all
  have f3: "system ?s3 = system ?s0" "settled ?s3 = Pending" "exitCode ?s3 = Some 0"
    using stderr_late_events [OF assms(4), of w ?tmp ?s2] f2 by simp_all
  have created: "?tmp \<in> set (files (system ?s0))"
    by (simp add: files_start_pipeline createWriteStream_def)
  have ren: "rename w ?tmp ?dst (system ?s0) =
      (Inr (), (system ?s0)\<lparr>files := removeAll ?tmp (removeAll ?dst (files (system ?s0))) @ [?dst],
                             calls := calls (system ?s0) @ [Rename ?tmp ?dst True]\<rparr>)"
    using created assms(5) by (simp add: rename_def)
  have s4: "?s4 = resolve (?s3\<lparr>system := (system ?s0)\<lparr>files := removeAll ?tmp (removeAll ?dst (files (system ?s0))) @ [?dst],
                             calls := calls (system ?s0) @ [Rename ?tmp ?dst True]\<rparr>\<rparr>)"
    using f3 ren by simp
  have r4: "settled ?s4 = Resolved"
    unfolding s4 using f3(2) by (simp add: resolve_def)
  have sys4: "system ?s4 = (system ?s0)\<lparr>files := removeAll ?tmp (removeAll ?dst (files (system ?s0))) @ [?dst],
                             calls := calls (system ?s0) @ [Rename ?tmp ?dst True]\<rparr>"
    unfolding s4 by simp
  have "run_pipeline w (pre @ PgdumpExit (Some 0) # mid @ GzipExit (Some 0) # post) st =
          await_promise w ?tmp (pre @ PgdumpExit (Some 0) # mid @ GzipExit (Some 0) # post) ?s0"
    using assms(1,2) by (simp add: run_pipeline_def)
  also have "\<dots> = await_promise w ?tmp (PgdumpExit (Some 0) # mid @ GzipExit (Some 0) # post) ?s1"
    by (rule await_stderr [OF assms(3) p0])
  also have "\<dots> = await_promise w ?tmp (mid @ GzipExit (Some 0) # post) ?s2"
    using f1(2) by (simp only: await_promise.simps) simp
  also have "\<dots> = await_promise w ?tmp (GzipExit (Some 0) # post) ?s3"
    by (rule await_stderr [OF assms(4) f2(2)])
  also have "\<dots> = await_promise w ?tmp post ?s4"
    using f3(2) by (simp only: await_promise.simps) simp
  also have "\<dots> = (?s4, post)"
    using r4 by (simp add: await_settled)
  finally have run: "run_pipeline w (pre @ PgdumpExit (Some 0) # mid @ GzipExit (Some 0) # post) st
      = (?s4, post)" .
  have "system ?s4 =
               \<lparr>files = removeAll ?tmp (removeAll ?dst (files (createWriteStream ?tmp st))) @ [?dst],
                calls = calls st @
                  [Spawn ''pg_dumpall'' (pgdump_args (config w)) (Some (pgdump_env w)),
                   Spawn ''gzip'' [] None, CreateWriteStream ?tmp, Rename ?tmp ?dst True]\<rparr>"
    unfolding sys4 by (simp add: files_start_pipeline calls_start_pipeline)
  with run r4 show ?thesis
    by blast
qed

lemma files_unlink_each: "set (files (snd (unlink_each w folder fs st))) \<subseteq> set (files st)"
proof (induction fs arbitrary: st)
  case Nil
  show ?case by simp
next
  case (Cons f fs)
  obtain r st' where u: "unlink w (path_join folder f) st = (r, st')"
    by (cases "unlink w (path_join folder f) st")
  then have sub: "set (files st') \<subseteq> set (files st)"
    by (auto simp: unlink_def split: if_splits)
  show ?case
  proof (cases r)
    case (Inl e)
    with u sub show ?thesis by simp
  next
    case (Inr v)
    with u have "unlink_each w folder (f # fs) st = unlink_each w folder fs st'"
      by simp
    with sub Cons.IH [of st'] show ?thesis
      by auto
  qed
qed

lemma files_cleanup: "set (files (snd (cleanupDatabaseBackups w st))) \<subseteq> set (files st)"
  by (simp add: snd_cleanup files_unlink_each)

text \<open>Once the temporary file is gone, no handler changes the files any more.\<close>

lemma files_on_event_no_tmp:
  "tmp \<notin> set (files (system s)) \<Longrightarrow> files (system (on_event w tmp e s)) = files (system s)"
proof (cases e)
  case (GzipExit code)
  assume "tmp \<notin> set (files (system s))"
  with GzipExit show ?thesis
    by (simp add: rename_def)
qed simp_all

lemma files_late_events_no_tmp:
  "tmp \<notin> set (files (system s)) \<Longrightarrow> files (system (late_events w tmp es s)) = files (system s)"
proof (induction es arbitrary: s)
  case Nil
  show ?case by simp
next
  case (Cons e es)
  from files_on_event_no_tmp [OF Cons.prems, of w e]
  have eq: "files (system (on_event w tmp e s)) = files (system s)" .
  with Cons.prems have "tmp \<notin> set (files (system (on_event w tmp e s)))"
    by simp
  from Cons.IH [OF this] eq show ?case
    by (simp add: late_events_Cons)
qed

text \<open>The promise is resolved by a successful rename and by nothing else.\<close>

lemma resolved_on_event:
  assumes "settled s = Resolved \<longrightarrow>
             Rename tmp (replace_first ''.tmp'' [] tmp) True \<in> set (calls (system s))"
  shows "settled (on_event w tmp e s) = Resolved \<longrightarrow>
           Rename tmp (replace_first ''.tmp'' [] tmp) True \<in> set (calls (system (on_event w tmp e s)))"
proof (cases e)
  case (GzipExit code)
  with assms show ?thesis
    by (simp add: rename_def reject_def resolve_def)
qed (use assms in \<open>simp_all add: reject_def\<close>)

lemma resolved_late_events:
  assumes "settled s = Resolved \<longrightarrow>
             Rename tmp (replace_first ''.tmp'' [] tmp) True \<in> set (calls (system s))"
  shows "settled (late_events w tmp es s) = Resolved \<longrightarrow>
           Rename tmp (replace_first ''.tmp'' [] tmp) True
             \<in> set (calls (system (late_events w tmp es s)))"
  using assms
proof (induction es arbitrary: s)
  case Nil
  then show ?case by simp
next
  case (Cons e es)
  from Cons.IH [OF resolved_on_event [OF Cons.prems, of w e]] show ?case
    by (simp add: late_events_Cons)
qed

lemma resolved_run_pipeline:
  "settled (fst (run_pipeline w evs st)) = Resolved \<Longrightarrow>
     Rename (backupFilePath w) (replace_first ''.tmp'' [] (backupFilePath w)) True
       \<in> set (calls (system (fst (run_pipeline w evs st))))"
proof -
  assume r: "settled (fst (run_pipeline w evs st)) = Resolved"
  obtain s late where a: "run_pipeline w evs st = (s, late)"
    by (cases "run_pipeline w evs st")
  then have "await_promise w (backupFilePath w)
      (if pgdump_streams w \<and> gzip_streams w then evs else []) (start_pipeline w st) = (s, late)"
    by (simp add: run_pipeline_def)
  from await_late_events [OF this] obtain pre where
    s: "s = late_events w (backupFilePath w) pre (start_pipeline w st)"
    by blast
  have "settled (start_pipeline w st) \<noteq> Resolved"
    by (simp add: start_pipeline_fields)
  then have "settled (start_pipeline w st) = Resolved \<longrightarrow>
      Rename (backupFilePath w) (replace_first ''.tmp'' [] (backupFilePath w)) True
        \<in> set (calls (system (start_pipeline w st)))"
    by simp
  from resolved_late_events [OF this, of w pre] s a r show ?thesis
    by simp
qed

lemma success_resolved:
  "fst (handleBackupDatabase w evs st) = Returns SUCCESS \<Longrightarrow>
     settled (fst (run_pipeline w evs st)) = Resolved"
proof -
  assume ok: "fst (handleBackupDatabase w evs st) = Returns SUCCESS"
  obtain s late where a: "run_pipeline w evs st = (s, late)"
    by (cases "run_pipeline w evs st")
  show ?thesis
  proof (cases "settled s")
    case Pending
    from handle_Pending [OF a Pending] ok show ?thesis by simp
  next
    case Rejected
    from handle_Rejected [OF a Rejected] ok show ?thesis by simp
  next
    case Resolved
    with a show ?thesis by simp
  qed
qed

text \<open>
  C1, as the code has it. Take a run in which both children have their streams, nothing
  but diagnostics and the producer's exit with status zero comes before the compressor's
  exit with status zero, the path of the backups folder does not contain \<open>.tmp\<close>, and
  the storage accepts the rename. Then the temporary file
  \<open>immich-db-backup-<ts>.sql.gz.tmp\<close> is renamed to the same path without the \<open>.tmp\<close>
  suffix, whose name is a well-formed final name; the promise is resolved after that
  rename, the temporary file is gone from then on, and the method returns \<open>SUCCESS\<close>
  unless the sweep that follows throws. In every run whatsoever, \<open>SUCCESS\<close> is returned
  only after the rename has succeeded.
\<close>

theorem clean_run_publishes:
  assumes "pgdump_streams w" and "gzip_streams w"
    and "list_all is_stderr pre" and "list_all is_stderr mid"
    and "\<not> contains ''.tmp'' (baseFolder w)"
    and "\<not> rename_fails w (backupFilePath w)
            (path_join (baseFolder w) (final_name (show_nat (now w))))"
  shows "backupFilePath w = path_join (baseFolder w) (final_name (show_nat (now w))) @ ''.tmp''
    \<and> wf_final (final_name (show_nat (now w)))
    \<and> settled (fst (run_pipeline w
          (pre @ PgdumpExit (Some 0) # mid @ GzipExit (Some 0) # post) st)) = Resolved
    \<and> calls (system (fst (run_pipeline w
          (pre @ PgdumpExit (Some 0) # mid @ GzipExit (Some 0) # post) st))) =
        calls st @
          [Spawn ''pg_dumpall'' (pgdump_args (config w)) (Some (pgdump_env w)),
           Spawn ''gzip'' [] None, CreateWriteStream (backupFilePath w),
           Rename (backupFilePath w)
             (path_join (baseFolder w) (final_name (show_nat (now w)))) True]
    \<and> path_join (baseFolder w) (final_name (show_nat (now w)))
        \<in> set (files (system (fst (run_pipeline w
              (pre @ PgdumpExit (Some 0) # mid @ GzipExit (Some 0) # post) st))))
    \<and> backupFilePath w
        \<notin> set (files (system (fst (run_pipeline w
              (pre @ PgdumpExit (Some 0) # mid @ GzipExit (Some 0) # post) st))))
    \<and> fst (handleBackupDatabase w
          (pre @ PgdumpExit (Some 0) # mid @ GzipExit (Some 0) # post) st) =
        (case fst (cleanupDatabaseBackups w (system (fst (run_pipeline w
                (pre @ PgdumpExit (Some 0) # mid @ GzipExit (Some 0) # post) st)))) of
           Inl e \<Rightarrow> Throws e | Inr n \<Rightarrow> Returns SUCCESS)
    \<and> backupFilePath w
        \<notin> set (files (snd (handleBackupDatabase w
              (pre @ PgdumpExit (Some 0) # mid @ GzipExit (Some 0) # post) st)))
    \<and> (\<forall>evs' st'. fst (handleBackupDatabase w evs' st') = Returns SUCCESS \<longrightarrow>
          Rename (backupFilePath w) (replace_first ''.tmp'' [] (backupFilePath w)) True
            \<in> set (calls (system (fst (run_pipeline w evs' st')))))"
proof -
  let ?tmp = "backupFilePath w"
  let ?dst = "path_join (baseFolder w) (final_name (show_nat (now w)))"
  let ?evs = "pre @ PgdumpExit (Some 0) # mid @ GzipExit (Some 0) # post"
  have dst: "replace_first ''.tmp'' [] ?tmp = ?dst"
    by (rule replace_first_backupFilePath [OF assms(5)])
  have c1: "?tmp = ?dst @ ''.tmp''"
    by (simp add: backupFilePath_def path_join_def final_name_def)
  then have ne: "?dst \<noteq> ?tmp"
    by simp
  have c2: "wf_final (final_name (show_nat (now w)))"
    using digits_show_nat [of "now w"] by (auto simp: wf_final_iff)
  from assms(6) have "\<not> rename_fails w ?tmp (replace_first ''.tmp'' [] ?tmp)"
    unfolding dst .
  from clean_run_pipeline [OF assms(1-4) this, of post st] obtain s where
    run: "run_pipeline w ?evs st = (s, post)" and res: "settled s = Resolved"
    and sys: "system s =
               \<lparr>files = removeAll ?tmp (removeAll ?dst (files (createWriteStream ?tmp st))) @ [?dst],
                calls = calls st @
                  [Spawn ''pg_dumpall'' (pgdump_args (config w)) (Some (pgdump_env w)),
                   Spawn ''gzip'' [] None, CreateWriteStream ?tmp, Rename ?tmp ?dst True]\<rparr>"
    unfolding dst by blast
  have c3: "settled (fst (run_pipeline w ?evs st)) = Resolved"
    using run res by simp
  have c4: "calls (system (fst (run_pipeline w ?evs st))) =
        calls st @
          [Spawn ''pg_dumpall'' (pgdump_args (config w)) (Some (pgdump_env w)),
           Spawn ''gzip'' [] None, CreateWriteStream ?tmp, Rename ?tmp ?dst True]"
    using run sys by simp
  have c5: "?dst \<in> set (files (system (fst (run_pipeline w ?evs st))))"
    using run sys by simp
  have gone: "?tmp \<notin> set (files (system s))"
    using sys ne by simp
  then have c6: "?tmp \<notin> set (files (system (fst (run_pipeline w ?evs st))))"
    using run by simp
  obtain r st' where c: "cleanupDatabaseBackups w (system s) = (r, st')"
    by (cases "cleanupDatabaseBackups w (system s)")
  from handle_Resolved [OF run res c]
  have h: "handleBackupDatabase w ?evs st =
           ((case r of Inl e \<Rightarrow> Throws e | Inr n \<Rightarrow> Returns SUCCESS),
            system (late_events w ?tmp post (s\<lparr>system := st'\<rparr>)))" .
  have c7: "fst (handleBackupDatabase w ?evs st) =
        (case fst (cleanupDatabaseBackups w (system (fst (run_pipeline w ?evs st)))) of
           Inl e \<Rightarrow> Throws e | Inr n \<Rightarrow> Returns SUCCESS)"
    using h run c by simp
  have "set (files st') \<subseteq> set (files (system s))"
    using files_cleanup [of w "system s"] c by simp
  with gone have "?tmp \<notin> set (files (system (s\<lparr>system := st'\<rparr>)))"
    by auto
  from files_late_events_no_tmp [OF this, of w post] this
  have "?tmp \<notin> set (files (system (late_events w ?tmp post (s\<lparr>system := st'\<rparr>))))"
    by simp
  with h have c8: "?tmp \<notin> set (files (snd (handleBackupDatabase w ?evs st)))"
    by simp
  have c9: "\<forall>evs' st'. fst (handleBackupDatabase w evs' st') = Returns SUCCESS \<longrightarrow>
          Rename ?tmp (replace_first ''.tmp'' [] ?tmp) True
            \<in> set (calls (system (fst (run_pipeline w evs' st'))))"
    using success_resolved resolved_run_pipeline by blast
  from c1 c2 c3 c4 c5 c6 c7 c8 c9 show ?thesis
    by blast
qed

theorem clean_run_publishes_witness:
  "pgdump_streams example_world \<and> gzip_streams example_world
   \<and> list_all is_stderr [PgdumpStderr ''dumping roles''] \<and> list_all is_stderr []
   \<and> \<not> contains ''.tmp'' (baseFolder example_world)
   \<and> \<not> rename_fails example_world (backupFilePath example_world)
          (path_join (baseFolder example_world) (final_name (show_nat (now example_world))))
   \<and> settled (fst (run_pipeline example_world
         ([PgdumpStderr ''dumping roles''] @ PgdumpExit (Some 0) # [] @ GzipExit (Some 0) # [])
         example_sys)) = Resolved
   \<and> backupFilePath example_world
        \<notin> set (files (snd (handleBackupDatabase example_world
             ([PgdumpStderr ''dumping roles''] @ PgdumpExit (Some 0) # [] @ GzipExit (Some 0) # [])
             example_sys)))"
proof -
  have h1: "pgdump_streams example_world" and h2: "gzip_streams example_world"
    by (simp_all add: example_world_def)
  have h3: "list_all is_stderr [PgdumpStderr ''dumping roles'']" and h4: "list_all is_stderr []"
    by simp_all
  have h5: "\<not> contains ''.tmp'' (baseFolder example_world)"
    by (simp add: example_world_def)
  have h6: "\<not> rename_fails example_world (backupFilePath example_world)
          (path_join (baseFolder example_world) (final_name (show_nat (now example_world))))"
    by (simp add: example_world_def)
  from clean_run_publishes [OF h1 h2 h3 h4 h5 h6, of "[]" example_sys] h1 h2 h3 h4 h5 h6
  show ?thesis
    by blast
qed

text \<open>
  Two of the hypotheses above keep away from slips of the code. When the exit of the
  compressor is delivered before the exit of the producer, \<open>pgdump.exitCode\<close> is still
  \<open>null\<close> in the handler of the compressor's exit: nothing is renamed, and the promise
  is never settled. When the path of the backups folder contains \<open>.tmp\<close>, it is that
  first occurrence \<open>replace\<close> removes: the file is moved to another folder and keeps
  its \<open>.tmp\<close> suffix.
\<close>

lemma compressor_exit_first_never_settles:
  "handleBackupDatabase example_world
      [GzipExit (Some 0), PgdumpExit (Some 0)] \<lparr>files = [], calls = []\<rparr> =
     (NeverReturns,
      \<lparr>files = [''upload/backups/immich-db-backup-500.sql.gz.tmp''],
       calls = [Spawn ''pg_dumpall''
                  [''-U'', ''postgres'', ''-h'', ''database'', ''--clean'', ''--if-exists'']
                  (Some [(''PATH'', Some ''/usr/bin''), (''PGPASSWORD'', Some ''secret'')]),
                Spawn ''gzip'' [] None,
                CreateWriteStream ''upload/backups/immich-db-backup-500.sql.gz.tmp'']\<rparr>)"
  by code_simp

lemma folder_with_tmp_misplaces_artifact:
  "handleBackupDatabase (example_world\<lparr>baseFolder := ''/mnt/.tmp/backups''\<rparr>)
      [PgdumpExit (Some 0), GzipExit (Some 0)] \<lparr>files = [], calls = []\<rparr> =
     (Returns SUCCESS,
      \<lparr>files = [''/mnt//backups/immich-db-backup-500.sql.gz.tmp''],
       calls = [Spawn ''pg_dumpall''
                  [''-U'', ''postgres'', ''-h'', ''database'', ''--clean'', ''--if-exists'']
                  (Some [(''PATH'', Some ''/usr/bin''), (''PGPASSWORD'', Some ''secret'')]),
                Spawn ''gzip'' [] None,
                CreateWriteStream ''/mnt/.tmp/backups/immich-db-backup-500.sql.gz.tmp'',
                Rename ''/mnt/.tmp/backups/immich-db-backup-500.sql.gz.tmp''
                  ''/mnt//backups/immich-db-backup-500.sql.gz.tmp'' True]\<rparr>)"
  by code_simp

text \<open>
  The claim as the spec words it fails in a run where both children exit with status
  zero, the producer first, and the storage refuses the rename: the promise is rejected
  by the \<open>catch\<close> of the rename, the method returns \<open>FAILED\<close>, nothing bears the final
  name, and the temporary file stays.
\<close>

theorem clean_exits_without_publication:
  "handleBackupDatabase (example_world\<lparr>rename_fails := \<lambda>a b. True\<rparr>)
      [PgdumpExit (Some 0), GzipExit (Some 0)] \<lparr>files = [], calls = []\<rparr> =
     (Returns FAILED,
      \<lparr>files = [''upload/backups/immich-db-backup-500.sql.gz.tmp''],
       calls = [Spawn ''pg_dumpall''
                  [''-U'', ''postgres'', ''-h'', ''database'', ''--clean'', ''--if-exists'']
                  (Some [(''PATH'', Some ''/usr/bin''), (''PGPASSWORD'', Some ''secret'')]),
                Spawn ''gzip'' [] None,
                CreateWriteStream ''upload/backups/immich-db-backup-500.sql.gz.tmp'',
                Rename ''upload/backups/immich-db-backup-500.sql.gz.tmp''
                  ''upload/backups/immich-db-backup-500.sql.gz'' False]\<rparr>)"
  by code_simp

section \<open>The directory listing and the deletion loop\<close>

lemma path_join_inject [simp]: "path_join folder f = path_join folder g \<longleftrightarrow> f = g"
  by (simp add: path_join_def)

lemma prefix_drop: "prefix a p \<Longrightarrow> a @ drop (length a) p = p"
  by (auto simp: prefix_def)

lemma readdir_set:
  "set (readdir folder st) =
     drop (length (folder @ ''/'')) `
       {p \<in> set (files st). prefix (folder @ ''/'') p \<and> drop (length (folder @ ''/'')) p \<noteq> []
          \<and> CHR ''/'' \<notin> set (drop (length (folder @ ''/'')) p)}"
  unfolding readdir_def by (simp only: set_map set_filter)

lemma path_join_eq: "path_join folder f = (folder @ ''/'') @ f"
  by (simp add: path_join_def)

lemma readdir_iff:
  "f \<in> set (readdir folder st) \<longleftrightarrow>
     path_join folder f \<in> set (files st) \<and> f \<noteq> [] \<and> CHR ''/'' \<notin> set f"
proof -
  define a where "a = folder @ ''/''"
  have pj: "\<And>g. path_join folder g = a @ g"
    unfolding a_def by (rule path_join_eq)
  have rd: "set (readdir folder st) =
      drop (length a) ` {p \<in> set (files st). prefix a p \<and> drop (length a) p \<noteq> []
          \<and> CHR ''/'' \<notin> set (drop (length a) p)}"
    unfolding a_def by (rule readdir_set)
  show ?thesis
  proof
    assume "f \<in> set (readdir folder st)"
    with rd obtain p where p: "p \<in> set (files st)" "prefix a p"
      "drop (length a) p \<noteq> []" "CHR ''/'' \<notin> set (drop (length a) p)" "f = drop (length a) p"
      by blast
    from prefix_drop [OF p(2)] p(5) have "a @ f = p"
      by simp
    with p(1) have 1: "path_join folder f \<in> set (files st)"
      unfolding pj by simp
    from p(3,4) have "f \<noteq> []" "CHR ''/'' \<notin> set f"
      unfolding p(5) by simp_all
    with 1 show "path_join folder f \<in> set (files st) \<and> f \<noteq> [] \<and> CHR ''/'' \<notin> set f"
      by blast
  next
    assume h: "path_join folder f \<in> set (files st) \<and> f \<noteq> [] \<and> CHR ''/'' \<notin> set f"
    have "drop (length a) (a @ f) = f" "prefix a (a @ f)"
      by simp_all
    with h have "a @ f \<in> {p \<in> set (files st). prefix a p \<and> drop (length a) p \<noteq> []
          \<and> CHR ''/'' \<notin> set (drop (length a) p)}"
      unfolding pj by simp
    then have "drop (length a) (a @ f) \<in> set (readdir folder st)"
      unfolding rd by (rule imageI)
    then show "f \<in> set (readdir folder st)"
      by simp
  qed
qed

text \<open>
  Removing the paths of some names from the files removes just these names from the
  listing.
\<close>

lemma readdir_filter:
  "readdir folder (st\<lparr>files := filter (\<lambda>p. p \<notin> path_join folder ` D) (files st), calls := cs\<rparr>) =
     filter (\<lambda>f. f \<notin> D) (readdir folder st)"
proof -
  define a where "a = folder @ ''/''"
  define P where "P = (\<lambda>p. prefix a p \<and> drop (length a) p \<noteq> [] \<and> CHR ''/'' \<notin> set (drop (length a) p))"
  have pj: "\<And>g. path_join folder g = a @ g"
    unfolding a_def by (rule path_join_eq)
  have rd: "\<And>s. readdir folder s = map (drop (length a)) (filter P (files s))"
    unfolding a_def P_def readdir_def by (rule refl)
  have eq: "(p \<notin> path_join folder ` D) = (drop (length a) p \<notin> D)" if "P p" for p
  proof -
    from that have "prefix a p"
      by (simp add: P_def)
    from prefix_drop [OF this] have p: "p = a @ drop (length a) p"
      by simp
    show ?thesis
    proof
      assume n: "p \<notin> path_join folder ` D"
      show "drop (length a) p \<notin> D"
      proof
        assume "drop (length a) p \<in> D"
        then have "a @ drop (length a) p \<in> path_join folder ` D"
          unfolding pj [symmetric] by (rule imageI)
        with p n show False by simp
      qed
    next
      assume n: "drop (length a) p \<notin> D"
      show "p \<notin> path_join folder ` D"
      proof
        assume "p \<in> path_join folder ` D"
        then obtain g where g: "g \<in> D" "p = a @ g"
          unfolding pj by blast
        then have "drop (length a) p = g"
          by simp
        with g n show False by simp
      qed
    qed
  qed
  have "filter P (filter (\<lambda>p. p \<notin> path_join folder ` D) (files st)) =
        filter (\<lambda>p. drop (length a) p \<notin> D) (filter P (files st))"
    unfolding filter_filter by (rule filter_cong) (use eq in auto)
  then show ?thesis
    unfolding rd by (simp add: filter_map comp_def)
qed

lemma distinct_readdir: "distinct (files st) \<Longrightarrow> distinct (readdir folder st)"
proof -
  assume d: "distinct (files st)"
  define a where "a = folder @ ''/''"
  define P where "P = (\<lambda>p. prefix a p \<and> drop (length a) p \<noteq> [] \<and> CHR ''/'' \<notin> set (drop (length a) p))"
  have rd: "readdir folder st = map (drop (length a)) (filter P (files st))"
    unfolding a_def P_def readdir_def by (rule refl)
  have "inj_on (drop (length a)) (set (filter P (files st)))"
  proof (rule inj_onI)
    fix p q
    assume "p \<in> set (filter P (files st))" "q \<in> set (filter P (files st))"
      and e: "drop (length a) p = drop (length a) q"
    then have "prefix a p" "prefix a q"
      by (simp_all add: P_def)
    from prefix_drop [OF this(1)] prefix_drop [OF this(2)] e show "p = q"
      by metis
  qed
  with d show ?thesis
    unfolding rd by (simp add: distinct_map)
qed

lemma unlink_each_append:
  "unlink_each w folder (xs @ ys) st =
     (case unlink_each w folder xs st of
        (Inl e, st') \<Rightarrow> (Inl e, st')
      | (Inr u, st') \<Rightarrow> unlink_each w folder ys st')"
proof (induction xs arbitrary: st)
  case Nil
  show ?case by simp
next
  case (Cons x xs)
  obtain r st1 where u: "unlink w (path_join folder x) st = (r, st1)"
    by (cases "unlink w (path_join folder x) st")
  show ?case
  proof (cases r)
    case (Inl e)
    with u show ?thesis by simp
  next
    case (Inr v)
    with u Cons.IH [of st1] show ?thesis by simp
  qed
qed

text \<open>The loop when every deletion succeeds.\<close>

lemma unlink_each_ok:
  assumes "distinct fs"
    and "\<forall>f\<in>set fs. path_join folder f \<in> set (files st) \<and> \<not> unlink_fails w (path_join folder f)"
  shows "unlink_each w folder fs st =
           (Inr (), st\<lparr>files := filter (\<lambda>p. p \<notin> path_join folder ` set fs) (files st),
                       calls := calls st @ map (\<lambda>f. Unlink (path_join folder f) True) fs\<rparr>)"
  using assms
proof (induction fs arbitrary: st)
  case Nil
  show ?case by simp
next
  case (Cons f fs)
  let ?p = "path_join folder f"
  let ?st1 = "st\<lparr>files := removeAll ?p (files st), calls := calls st @ [Unlink ?p True]\<rparr>"
  from Cons.prems have u: "unlink w ?p st = (Inr (), ?st1)"
    by (simp add: unlink_def)
  from Cons.prems have d: "distinct fs" and nf: "f \<notin> set fs"
    by simp_all
  have "\<forall>g\<in>set fs. path_join folder g \<in> set (files ?st1) \<and> \<not> unlink_fails w (path_join folder g)"
    using Cons.prems(2) nf by auto
  from Cons.IH [OF d this]
  have "unlink_each w folder fs ?st1 =
          (Inr (), ?st1\<lparr>files := filter (\<lambda>p. p \<notin> path_join folder ` set fs) (files ?st1),
                       calls := calls ?st1 @ map (\<lambda>f. Unlink (path_join folder f) True) fs\<rparr>)" .
  moreover have "filter (\<lambda>p. p \<notin> path_join folder ` set fs) (removeAll ?p (files st)) =
                 filter (\<lambda>p. p \<notin> path_join folder ` set (f # fs)) (files st)"
    by (auto simp: removeAll_filter_not_eq intro: filter_cong)
  ultimately show ?case
    using u by simp
qed

text \<open>The loop when a deletion fails: it is the last call of the loop.\<close>

lemma unlink_each_fails:
  assumes "distinct pre"
    and "\<forall>g\<in>set pre. path_join folder g \<in> set (files st) \<and> \<not> unlink_fails w (path_join folder g)"
    and "unlink_fails w (path_join folder f)"
  shows "unlink_each w folder (pre @ f # post) st =
           (Inl (UnlinkError (path_join folder f)),
            st\<lparr>files := filter (\<lambda>p. p \<notin> path_join folder ` set pre) (files st),
               calls := calls st @ map (\<lambda>g. Unlink (path_join folder g) True) pre
                          @ [Unlink (path_join folder f) False]\<rparr>)"
proof -
  let ?st1 = "st\<lparr>files := filter (\<lambda>p. p \<notin> path_join folder ` set pre) (files st),
                 calls := calls st @ map (\<lambda>g. Unlink (path_join folder g) True) pre\<rparr>"
  have "unlink_each w folder (f # post) ?st1 =
          (Inl (UnlinkError (path_join folder f)),
           ?st1\<lparr>calls := calls ?st1 @ [Unlink (path_join folder f) False]\<rparr>)"
    using assms(3) by (simp add: unlink_def)
  with unlink_each_ok [OF assms(1,2)] show ?thesis
    by (simp add: unlink_each_append)
qed

text \<open>The candidates of a sweep.\<close>

lemma set_backups: "set (backups fs) = {f \<in> set fs. is_backup f}"
  by (auto simp: backups_def)

lemma set_toDelete_subset:
  "set (toDelete k fs) \<subseteq> {f \<in> set fs. is_backup f \<or> is_failed_backup f}"
proof -
  have "set (drop k (backups fs)) \<subseteq> set (backups fs)"
    by (rule set_drop_subset)
  then show ?thesis
    by (auto simp: toDelete_def set_backups failedBackups_def)
qed

lemma distinct_toDelete: "distinct fs \<Longrightarrow> distinct (toDelete k fs)"
proof -
  assume d: "distinct fs"
  then have 1: "distinct (drop k (backups fs))"
    by (simp add: backups_def)
  from d have 2: "distinct (failedBackups fs)"
    by (simp add: failedBackups_def)
  have "set (drop k (backups fs)) \<inter> set (failedBackups fs) = {}"
  proof -
    have "set (drop k (backups fs)) \<subseteq> {f \<in> set fs. is_backup f}"
      using set_drop_subset [of k "backups fs"] by (simp add: set_backups)
    then show ?thesis
      using backup_not_failed by (auto simp: failedBackups_def)
  qed
  with 1 2 show ?thesis
    by (simp add: toDelete_def)
qed

lemma temporaries_in_toDelete:
  "f \<in> set fs \<Longrightarrow> is_failed_backup f \<Longrightarrow> f \<in> set (toDelete k fs)"
  by (simp add: toDelete_def failedBackups_def)

section \<open>What a sweep deletes\<close>

text \<open>The sweep when no deletion fails.\<close>

lemma cleanup_ok:
  assumes "distinct (files st)"
    and "\<forall>g\<in>set (toDelete (keepLastAmount (backup w)) (readdir (baseFolder w) st)).
           \<not> unlink_fails w (path_join (baseFolder w) g)"
  shows "cleanupDatabaseBackups w st =
           (Inr (length (toDelete (keepLastAmount (backup w)) (readdir (baseFolder w) st))),
            st\<lparr>files := filter (\<lambda>p. p \<notin> path_join (baseFolder w) `
                            set (toDelete (keepLastAmount (backup w)) (readdir (baseFolder w) st)))
                          (files st),
               calls := calls st @ map (\<lambda>f. Unlink (path_join (baseFolder w) f) True)
                          (toDelete (keepLastAmount (backup w)) (readdir (baseFolder w) st))\<rparr>)"
proof -
  let ?td = "toDelete (keepLastAmount (backup w)) (readdir (baseFolder w) st)"
  have d: "distinct ?td"
    by (rule distinct_toDelete [OF distinct_readdir [OF assms(1)]])
  have "set ?td \<subseteq> set (readdir (baseFolder w) st)"
    using set_toDelete_subset [of "keepLastAmount (backup w)" "readdir (baseFolder w) st"] by blast
  then have "\<forall>g\<in>set ?td. path_join (baseFolder w) g \<in> set (files st)"
    by (auto simp: readdir_iff)
  with assms(2) have "\<forall>g\<in>set ?td. path_join (baseFolder w) g \<in> set (files st)
      \<and> \<not> unlink_fails w (path_join (baseFolder w) g)"
    by blast
  from unlink_each_ok [OF d this] show ?thesis
    by (simp add: cleanupDatabaseBackups_def Let_def)
qed

text \<open>
  C7, as the code has it. The candidates are deleted one after the other, in the order
  of \<open>toDelete\<close>, and the first deletion that fails ends the sweep: the candidates before
  it are gone, it and all candidates after it are still there, no deletion of a later
  candidate has been attempted, and the error leaves \<open>cleanupDatabaseBackups\<close> in place
  of a count.
\<close>

theorem sweep_stops_at_first_failure:
  assumes "distinct (files st)"
    and "toDelete (keepLastAmount (backup w)) (readdir (baseFolder w) st) = pre @ f # post"
    and "\<forall>g\<in>set pre. \<not> unlink_fails w (path_join (baseFolder w) g)"
    and "unlink_fails w (path_join (baseFolder w) f)"
  shows "cleanupDatabaseBackups w st =
           (Inl (UnlinkError (path_join (baseFolder w) f)),
            st\<lparr>files := filter (\<lambda>p. p \<notin> path_join (baseFolder w) ` set pre) (files st),
               calls := calls st @ map (\<lambda>g. Unlink (path_join (baseFolder w) g) True) pre
                          @ [Unlink (path_join (baseFolder w) f) False]\<rparr>)
         \<and> (\<forall>g\<in>set (f # post).
               path_join (baseFolder w) g \<in> set (files (snd (cleanupDatabaseBackups w st))))"
proof -
  let ?base = "baseFolder w"
  let ?td = "toDelete (keepLastAmount (backup w)) (readdir ?base st)"
  have d: "distinct ?td"
    by (rule distinct_toDelete [OF distinct_readdir [OF assms(1)]])
  with assms(2) have dp: "distinct pre" and disj: "set pre \<inter> set (f # post) = {}"
    by auto
  have "set ?td \<subseteq> set (readdir ?base st)"
    using set_toDelete_subset [of "keepLastAmount (backup w)" "readdir ?base st"] by blast
  then have inf: "\<forall>g\<in>set ?td. path_join ?base g \<in> set (files st)"
    by (auto simp: readdir_iff)
  with assms(2,3) have "\<forall>g\<in>set pre. path_join ?base g \<in> set (files st)
      \<and> \<not> unlink_fails w (path_join ?base g)"
    by simp
  from unlink_each_fails [OF dp this assms(4), of post] assms(2)
  have res: "cleanupDatabaseBackups w st =
           (Inl (UnlinkError (path_join ?base f)),
            st\<lparr>files := filter (\<lambda>p. p \<notin> path_join ?base ` set pre) (files st),
               calls := calls st @ map (\<lambda>g. Unlink (path_join ?base g) True) pre
                          @ [Unlink (path_join ?base f) False]\<rparr>)"
    by (simp add: cleanupDatabaseBackups_def Let_def)
  have "\<forall>g\<in>set (f # post). path_join ?base g \<in> set (files (snd (cleanupDatabaseBackups w st)))"
  proof
    fix g assume g: "g \<in> set (f # post)"
    with assms(2) have "g \<in> set ?td"
      by auto
    with inf have 1: "path_join ?base g \<in> set (files st)"
      by blast
    from g disj have "g \<notin> set pre"
      by blast
    then have "path_join ?base g \<notin> path_join ?base ` set pre"
      by auto
    with 1 show "path_join ?base g \<in> set (files (snd (cleanupDatabaseBackups w st)))"
      unfolding res by simp
  qed
  with res show ?thesis
    by blast
qed

theorem sweep_stops_at_first_failure_witness:
  "cleanupDatabaseBackups
     (example_world\<lparr>unlink_fails := \<lambda>p. p = ''upload/backups/immich-db-backup-100.sql.gz''\<rparr>)
     example_sys =
     (Inl (UnlinkError ''upload/backups/immich-db-backup-100.sql.gz''),
      example_sys\<lparr>calls := [Unlink ''upload/backups/immich-db-backup-100.sql.gz'' False]\<rparr>)"
proof -
  let ?w = "example_world\<lparr>unlink_fails := \<lambda>p. p = ''upload/backups/immich-db-backup-100.sql.gz''\<rparr>"
  have h1: "distinct (files example_sys)"
    by (simp add: example_sys_def)
  have h2: "toDelete (keepLastAmount (backup ?w)) (readdir (baseFolder ?w) example_sys) =
      [] @ ''immich-db-backup-100.sql.gz'' # [''immich-db-backup-400.sql.gz.tmp'']"
    by code_simp
  have h3: "\<forall>g\<in>set []. \<not> unlink_fails ?w (path_join (baseFolder ?w) g)"
    by simp
  have h4: "unlink_fails ?w (path_join (baseFolder ?w) ''immich-db-backup-100.sql.gz'')"
    by (simp add: example_world_def path_join_def)
  have b: "path_join (baseFolder ?w) ''immich-db-backup-100.sql.gz'' =
      ''upload/backups/immich-db-backup-100.sql.gz''"
    by (simp add: example_world_def path_join_def)
  from sweep_stops_at_first_failure [OF h1 h2 h3 h4] show ?thesis
    unfolding b by (simp add: example_sys_def)
qed

text \<open>
  The claim as the spec words it fails: when the deletion of the oldest backup is
  refused, the orphaned temporary file, the candidate after it, is never attempted and
  stays.
\<close>

theorem failed_deletion_aborts_sweep:
  "toDelete 2 (readdir ''upload/backups'' example_sys) =
     [''immich-db-backup-100.sql.gz'', ''immich-db-backup-400.sql.gz.tmp'']
   \<and> cleanupDatabaseBackups
       (example_world\<lparr>unlink_fails := \<lambda>p. p = ''upload/backups/immich-db-backup-100.sql.gz''\<rparr>)
       example_sys =
     (Inl (UnlinkError ''upload/backups/immich-db-backup-100.sql.gz''),
      \<lparr>files = [''upload/backups/immich-db-backup-100.sql.gz'',
                ''upload/backups/immich-db-backup-200.sql.gz'',
                ''upload/backups/immich-db-backup-300.sql.gz'',
                ''upload/backups/immich-db-backup-400.sql.gz.tmp'',
                ''upload/backups/notes.txt'',
                ''upload/profile.jpg''],
       calls = [Unlink ''upload/backups/immich-db-backup-100.sql.gz'' False]\<rparr>)"
  by code_simp

text \<open>What the loop can touch: the paths of its candidates, and nothing else.\<close>

lemma unlink_each_frame:
  "(p \<notin> path_join folder ` set fs \<longrightarrow>
      (p \<in> set (files (snd (unlink_each w folder fs st))) \<longleftrightarrow> p \<in> set (files st)))
   \<and> (\<exists>cs. calls (snd (unlink_each w folder fs st)) = calls st @ cs
          \<and> (\<forall>c\<in>set cs. \<exists>f\<in>set fs. \<exists>ok. c = Unlink (path_join folder f) ok))"
proof (induction fs arbitrary: st)
  case Nil
  show ?case by simp
next
  case (Cons f fs)
  obtain r st1 where u: "unlink w (path_join folder f) st = (r, st1)"
    by (cases "unlink w (path_join folder f) st")
  then have f1: "p \<noteq> path_join folder f \<longrightarrow> (p \<in> set (files st1) \<longleftrightarrow> p \<in> set (files st))"
    by (auto simp: unlink_def split: if_splits)
  from u have "\<exists>ok. calls st1 = calls st @ [Unlink (path_join folder f) ok]"
    by (auto simp: unlink_def split: if_splits)
  then obtain ok where c1: "calls st1 = calls st @ [Unlink (path_join folder f) ok]"
    by blast
  show ?case
  proof (cases r)
    case (Inl e)
    with u have "snd (unlink_each w folder (f # fs) st) = st1"
      by simp
    with f1 c1 show ?thesis
      by auto
  next
    case (Inr v)
    with u have eq: "unlink_each w folder (f # fs) st = unlink_each w folder fs st1"
      by simp
    from Cons.IH [of st1] obtain cs where
      f2: "p \<notin> path_join folder ` set fs \<longrightarrow>
            (p \<in> set (files (snd (unlink_each w folder fs st1))) \<longleftrightarrow> p \<in> set (files st1))"
      and c2: "calls (snd (unlink_each w folder fs st1)) = calls st1 @ cs"
        "\<forall>c\<in>set cs. \<exists>f\<in>set fs. \<exists>ok. c = Unlink (path_join folder f) ok"
      by blast
    have files: "p \<notin> path_join folder ` set (f # fs) \<longrightarrow>
      (p \<in> set (files (snd (unlink_each w folder (f # fs) st))) \<longleftrightarrow> p \<in> set (files st))"
      using f1 f2 unfolding eq by auto
    have "calls (snd (unlink_each w folder (f # fs) st)) =
            calls st @ (Unlink (path_join folder f) ok # cs)"
      unfolding eq using c1 c2(1) by simp
    moreover have "\<forall>c\<in>set (Unlink (path_join folder f) ok # cs).
        \<exists>g\<in>set (f # fs). \<exists>ok. c = Unlink (path_join folder g) ok"
      using c2(2) by auto
    ultimately show ?thesis
      using files by blast
  qed
qed

text \<open>
  C5, as the code has it. A sweep leaves alone every path that is not the path, inside
  the backups folder, of a name one of the two expressions accepts: such a file exists
  after the sweep exactly when it existed before, whether the sweep ends normally or
  with an error. The only calls a sweep makes are \<open>unlink\<close> calls on names of the
  listing that one of the expressions accepts. The expressions are anchored at the end
  of the name only, so they accept more than the well-formed names: any prefix may come
  before \<open>immich-db-backup-\<close>.
\<close>

theorem sweep_leaves_other_files:
  assumes "\<forall>f. p = path_join (baseFolder w) f \<longrightarrow> \<not> is_backup f \<and> \<not> is_failed_backup f"
  shows "(p \<in> set (files (snd (cleanupDatabaseBackups w st))) \<longleftrightarrow> p \<in> set (files st))
       \<and> (\<exists>cs. calls (snd (cleanupDatabaseBackups w st)) = calls st @ cs
             \<and> (\<forall>c\<in>set cs. \<exists>f ok. c = Unlink (path_join (baseFolder w) f) ok
                    \<and> f \<in> set (readdir (baseFolder w) st)
                    \<and> (is_backup f \<or> is_failed_backup f) \<and> path_join (baseFolder w) f \<noteq> p))
       \<and> (\<forall>f. is_backup f \<longleftrightarrow> (\<exists>q ds. digits ds \<and> f = q @ final_name ds))
       \<and> (\<forall>f. is_failed_backup f \<longleftrightarrow> (\<exists>q ds. digits ds \<and> f = q @ temp_name ds))"
proof -
  let ?base = "baseFolder w"
  let ?td = "toDelete (keepLastAmount (backup w)) (readdir ?base st)"
  have sub: "set ?td \<subseteq> {f \<in> set (readdir ?base st). is_backup f \<or> is_failed_backup f}"
    by (rule set_toDelete_subset)
  with assms have np: "p \<notin> path_join ?base ` set ?td"
    by blast
  from unlink_each_frame [of p ?base ?td w st] obtain cs where
    f: "p \<notin> path_join ?base ` set ?td \<longrightarrow>
          (p \<in> set (files (snd (unlink_each w ?base ?td st))) \<longleftrightarrow> p \<in> set (files st))"
    and c: "calls (snd (unlink_each w ?base ?td st)) = calls st @ cs"
      "\<forall>c\<in>set cs. \<exists>f\<in>set ?td. \<exists>ok. c = Unlink (path_join ?base f) ok"
    by blast
  from f np have 1: "p \<in> set (files (snd (cleanupDatabaseBackups w st))) \<longleftrightarrow> p \<in> set (files st)"
    by (simp add: snd_cleanup)
  have "\<forall>c\<in>set cs. \<exists>f ok. c = Unlink (path_join ?base f) ok
          \<and> f \<in> set (readdir ?base st) \<and> (is_backup f \<or> is_failed_backup f)
          \<and> path_join ?base f \<noteq> p"
  proof
    fix c assume "c \<in> set cs"
    with c(2) obtain f ok where fo: "f \<in> set ?td" "c = Unlink (path_join ?base f) ok"
      by blast
    with sub have "f \<in> set (readdir ?base st)" "is_backup f \<or> is_failed_backup f"
      by blast+
    moreover from fo(1) np have "path_join ?base f \<noteq> p"
      by blast
    ultimately show "\<exists>f ok. c = Unlink (path_join ?base f) ok
          \<and> f \<in> set (readdir ?base st) \<and> (is_backup f \<or> is_failed_backup f)
          \<and> path_join ?base f \<noteq> p"
      using fo(2) by blast
  qed
  with c(1) have 2: "\<exists>cs. calls (snd (cleanupDatabaseBackups w st)) = calls st @ cs
             \<and> (\<forall>c\<in>set cs. \<exists>f ok. c = Unlink (path_join ?base f) ok
                    \<and> f \<in> set (readdir ?base st)
                    \<and> (is_backup f \<or> is_failed_backup f) \<and> path_join ?base f \<noteq> p)"
    by (simp add: snd_cleanup)
  from 1 2 is_backup_iff is_failed_backup_iff show ?thesis
    by blast
qed

theorem sweep_leaves_other_files_witness:
  "\<not> is_backup ''notes.txt'' \<and> \<not> is_failed_backup ''notes.txt''
   \<and> ''upload/backups/notes.txt'' \<in> set (files example_sys)
   \<and> ''upload/backups/notes.txt'' \<in> set (files (snd (cleanupDatabaseBackups example_world example_sys)))"
proof -
  have n: "\<not> is_backup ''notes.txt''" "\<not> is_failed_backup ''notes.txt''"
    by code_simp+
  have h: "\<forall>f. ''upload/backups/notes.txt'' = path_join (baseFolder example_world) f \<longrightarrow>
             \<not> is_backup f \<and> \<not> is_failed_backup f"
  proof (intro allI impI)
    fix f assume "''upload/backups/notes.txt'' = path_join (baseFolder example_world) f"
    then have "f = ''notes.txt''"
      by (simp add: example_world_def path_join_def)
    with n show "\<not> is_backup f \<and> \<not> is_failed_backup f"
      by simp
  qed
  have i: "''upload/backups/notes.txt'' \<in> set (files example_sys)"
    by (simp add: example_sys_def)
  from sweep_leaves_other_files [OF h, of example_sys] i n show ?thesis
    by blast
qed

text \<open>
  The claim as the spec words it fails: \<open>copy-of-immich-db-backup-400.sql.gz.tmp\<close> is
  neither a well-formed final name nor a well-formed temporary name, yet the first
  expression accepts it and the sweep deletes the file.
\<close>

theorem sweep_deletes_malformed_name:
  "\<not> wf_final ''copy-of-immich-db-backup-400.sql.gz.tmp''
   \<and> \<not> wf_temp ''copy-of-immich-db-backup-400.sql.gz.tmp''
   \<and> cleanupDatabaseBackups example_world
       \<lparr>files = [''upload/backups/copy-of-immich-db-backup-400.sql.gz.tmp''], calls = []\<rparr> =
     (Inr 1,
      \<lparr>files = [],
       calls = [Unlink ''upload/backups/copy-of-immich-db-backup-400.sql.gz.tmp'' True]\<rparr>)"
  by code_simp

text \<open>
  C4, as the code has it. Whatever the keep-count, every well-formed temporary file of
  the listing is among the candidates of the sweep, after the backups that are not
  kept; and a sweep in which no deletion is refused deletes them all.
\<close>

theorem sweep_deletes_temporaries:
  assumes "distinct (files st)"
    and "\<forall>g\<in>set (toDelete (keepLastAmount (backup w)) (readdir (baseFolder w) st)).
           \<not> unlink_fails w (path_join (baseFolder w) g)"
    and "f \<in> set (readdir (baseFolder w) st)" and "wf_temp f"
  shows "(\<forall>k. f \<in> set (toDelete k (readdir (baseFolder w) st)))
       \<and> (\<exists>n. fst (cleanupDatabaseBackups w st) = Inr n)
       \<and> path_join (baseFolder w) f \<notin> set (files (snd (cleanupDatabaseBackups w st)))
       \<and> f \<notin> set (readdir (baseFolder w) (snd (cleanupDatabaseBackups w st)))
       \<and> Unlink (path_join (baseFolder w) f) True \<in> set (calls (snd (cleanupDatabaseBackups w st)))"
proof -
  let ?base = "baseFolder w"
  let ?td = "toDelete (keepLastAmount (backup w)) (readdir ?base st)"
  from assms(4) have t: "is_failed_backup f"
    by (rule wf_temp_is_failed_backup)
  with assms(3) have 1: "\<forall>k. f \<in> set (toDelete k (readdir ?base st))"
    by (simp add: temporaries_in_toDelete)
  then have m: "f \<in> set ?td"
    by blast
  note res = cleanup_ok [OF assms(1,2)]
  have 2: "\<exists>n. fst (cleanupDatabaseBackups w st) = Inr n"
    unfolding res by simp
  from m have 3: "path_join ?base f \<notin> set (files (snd (cleanupDatabaseBackups w st)))"
    unfolding res by simp
  then have 4: "f \<notin> set (readdir ?base (snd (cleanupDatabaseBackups w st)))"
    by (simp add: readdir_iff)
  from m have 5: "Unlink (path_join ?base f) True \<in> set (calls (snd (cleanupDatabaseBackups w st)))"
    unfolding res by simp
  from 1 2 3 4 5 show ?thesis
    by blast
qed

theorem sweep_deletes_temporaries_witness:
  "distinct (files example_sys)
   \<and> ''immich-db-backup-400.sql.gz.tmp'' \<in> set (readdir (baseFolder example_world) example_sys)
   \<and> wf_temp ''immich-db-backup-400.sql.gz.tmp''
   \<and> path_join (baseFolder example_world) ''immich-db-backup-400.sql.gz.tmp''
        \<notin> set (files (snd (cleanupDatabaseBackups example_world example_sys)))"
proof -
  have h1: "distinct (files example_sys)"
    by (simp add: example_sys_def)
  have h2: "\<forall>g\<in>set (toDelete (keepLastAmount (backup example_world))
                       (readdir (baseFolder example_world) example_sys)).
           \<not> unlink_fails example_world (path_join (baseFolder example_world) g)"
    by (simp add: example_world_def)
  have h3: "''immich-db-backup-400.sql.gz.tmp'' \<in> set (readdir (baseFolder example_world) example_sys)"
    by code_simp
  have h4: "wf_temp ''immich-db-backup-400.sql.gz.tmp''"
    by code_simp
  from sweep_deletes_temporaries [OF h1 h2 h3 h4] h1 h3 h4 show ?thesis
    by blast
qed

text \<open>
  The claim as the spec words it fails in a sweep with a refused deletion: with a
  keep-count of one the candidates are the backups 200 and 100 and the temporary file
  400; the deletion of 200 is refused, and the temporary file is still there after the
  sweep.
\<close>

theorem temporary_survives_aborted_sweep:
  "wf_temp ''immich-db-backup-400.sql.gz.tmp''
   \<and> toDelete 1 (readdir ''upload/backups'' example_sys) =
       [''immich-db-backup-200.sql.gz'', ''immich-db-backup-100.sql.gz'',
        ''immich-db-backup-400.sql.gz.tmp'']
   \<and> readdir ''upload/backups''
       (snd (cleanupDatabaseBackups
          (example_world\<lparr>backup := \<lparr>cronExpression = ''0 02 * * *'', enabled = True,
                                      keepLastAmount = 1\<rparr>,
                          unlink_fails := \<lambda>p. p = ''upload/backups/immich-db-backup-200.sql.gz''\<rparr>)
          example_sys)) =
       [''immich-db-backup-100.sql.gz'', ''immich-db-backup-200.sql.gz'',
        ''immich-db-backup-300.sql.gz'', ''immich-db-backup-400.sql.gz.tmp'', ''notes.txt'']"
  by code_simp

section \<open>Name order and timestamp order\<close>

lemma of_char_digit: "is_digit c \<Longrightarrow> 48 \<le> (of_char c :: nat) \<and> (of_char c :: nat) \<le> 57"
  unfolding is_digit_def by auto

lemma digit_val_less: "is_digit c \<Longrightarrow> is_digit d \<Longrightarrow> (c < d) = (digit_val c < digit_val d)"
  using of_char_digit [of c] of_char_digit [of d]
  by (auto simp: less_char_def digit_val_def)

lemma shifted_eq: "48 \<le> m \<Longrightarrow> 48 \<le> n \<Longrightarrow> (m - 48 = n - 48) = (m = (n :: nat))"
  by arith

lemma digit_val_eq: "is_digit c \<Longrightarrow> is_digit d \<Longrightarrow> (c = d) = (digit_val c = digit_val d)"
proof -
  assume "is_digit c" "is_digit d"
  with of_char_digit [of c] of_char_digit [of d]
  have "48 \<le> (of_char c :: nat)" "48 \<le> (of_char d :: nat)"
    by simp_all
  from shifted_eq [OF this]
  have "(digit_val c = digit_val d) = ((of_char c :: nat) = of_char d)"
    by (simp only: digit_val_def of_char_Char) simp
  then show ?thesis
    by simp
qed

lemma digit_val_le_9: "is_digit c \<Longrightarrow> digit_val c \<le> 9"
  using of_char_digit [of c] by (auto simp: digit_val_def)

lemma foldl_digits:
  "foldl (\<lambda>n c. 10 * n + digit_val c) a cs =
     a * 10 ^ length cs + foldl (\<lambda>n c. 10 * n + digit_val c) 0 cs"
proof (induction cs arbitrary: a)
  case Nil
  show ?case by simp
next
  case (Cons c cs)
  from Cons.IH [of "10 * a + digit_val c"] Cons.IH [of "digit_val c"] show ?case
    by (simp add: algebra_simps)
qed

lemma nat_of_digits_Cons:
  "nat_of_digits (c # cs) = digit_val c * 10 ^ length cs + nat_of_digits cs"
  using foldl_digits [of "digit_val c" cs] by (simp add: nat_of_digits_def)

lemma nat_of_digits_bound: "list_all is_digit cs \<Longrightarrow> nat_of_digits cs < 10 ^ length cs"
proof (induction cs)
  case Nil
  show ?case by (simp add: nat_of_digits_def)
next
  case (Cons c cs)
  then have "digit_val c \<le> 9" and b: "nat_of_digits cs < 10 ^ length cs"
    by (simp_all add: digit_val_le_9)
  then have "digit_val c * 10 ^ length cs \<le> 9 * 10 ^ length cs"
    by simp
  with b have "digit_val c * 10 ^ length cs + nat_of_digits cs < 9 * 10 ^ length cs + 10 ^ length cs"
    by linarith
  then show ?case
    by (simp add: nat_of_digits_Cons)
qed

lemma leading_digit_decides:
  fixes a b x y p :: nat
  assumes "a < b" and "x < p"
  shows "a * p + x < b * p + y"
proof -
  from assms(2) have "a * p + x < Suc a * p"
    by simp
  also from assms(1) have "Suc a * p \<le> b * p"
    by (intro mult_le_mono1) simp
  finally show ?thesis
    by simp
qed

text \<open>On runs of digits of one length the order of the strings is the order of the numbers.\<close>

lemma digits_less:
  "length ds = length es \<Longrightarrow> list_all is_digit ds \<Longrightarrow> list_all is_digit es \<Longrightarrow>
     (ds < es) = (nat_of_digits ds < nat_of_digits es)"
proof (induction ds es rule: list_induct2)
  case Nil
  show ?case by simp
next
  case (Cons c cs d ds)
  then have c: "is_digit c" and d: "is_digit d"
    and cs: "list_all is_digit cs" and ds: "list_all is_digit ds"
    by simp_all
  from Cons.IH [OF cs ds] have IH: "(cs < ds) = (nat_of_digits cs < nat_of_digits ds)" .
  from nat_of_digits_bound [OF cs] nat_of_digits_bound [OF ds] Cons.hyps
  have bc: "nat_of_digits cs < 10 ^ length cs" and bd: "nat_of_digits ds < 10 ^ length cs"
    by simp_all
  consider "digit_val c < digit_val d" | "digit_val c = digit_val d" | "digit_val d < digit_val c"
    by linarith
  then show ?case
  proof cases
    case 1
    with digit_val_less [OF c d] have "c < d"
      by simp
    moreover from leading_digit_decides [OF 1 bc] Cons.hyps
    have "nat_of_digits (c # cs) < nat_of_digits (d # ds)"
      by (simp add: nat_of_digits_Cons)
    ultimately show ?thesis
      by simp
  next
    case 2
    with digit_val_eq [OF c d] have "c = d"
      by simp
    with IH Cons.hyps show ?thesis
      by (simp add: nat_of_digits_Cons)
  next
    case 3
    with digit_val_less [OF d c] have dc: "d < c"
      by simp
    from leading_digit_decides [OF 3 bd] Cons.hyps
    have "nat_of_digits (d # ds) < nat_of_digits (c # cs)"
      by (simp add: nat_of_digits_Cons)
    with dc show ?thesis
      by auto
  qed
qed

lemma less_same_prefix: "(xs @ ys < xs @ zs) = (ys < (zs :: string))"
  by (induction xs) simp_all

lemma less_same_suffix:
  "length ds = length es \<Longrightarrow> (ds @ s < es @ s) = (ds < (es :: string))"
  by (induction ds es rule: list_induct2) simp_all

lemma timestamp_final_name: "digits ds \<Longrightarrow> timestamp (final_name ds) = nat_of_digits ds"
proof -
  assume "digits ds"
  then have "list_all is_digit ds"
    by (simp add: digits_def)
  from takeWhile_digits [OF this dot_no_digit, of "''sql.gz''"] show ?thesis
    by (simp add: timestamp_def final_name_def)
qed

text \<open>
  Two well-formed final names of one length: the earlier name in the order of the
  strings is the one with the smaller timestamp.
\<close>

lemma final_names_less:
  assumes "wf_final f" and "wf_final g" and "length f = length g"
  shows "(f < g) = (timestamp f < timestamp g)"
proof -
  from assms(1,2) obtain ds es where ds: "digits ds" "f = final_name ds"
    and es: "digits es" "g = final_name es"
    unfolding wf_final_iff by blast
  from assms(3) ds(2) es(2) have len: "length ds = length es"
    by (simp add: final_name_def)
  have "(f < g) = (ds @ ''.sql.gz'' < es @ ''.sql.gz'')"
    unfolding ds(2) es(2) final_name_def by (rule less_same_prefix)
  also have "\<dots> = (ds < es)"
    by (rule less_same_suffix [OF len])
  also have "\<dots> = (nat_of_digits ds < nat_of_digits es)"
    using ds(1) es(1) by (intro digits_less [OF len]) (simp_all add: digits_def)
  finally show ?thesis
    using ds es by (simp add: timestamp_final_name)
qed

lemma final_names_le:
  assumes "wf_final f" and "wf_final g" and "length f = length g"
  shows "(timestamp f \<le> timestamp g) = (f \<le> g)"
proof -
  from final_names_less [OF assms(2,1)] assms(3) have "(g < f) = (timestamp g < timestamp f)"
    by simp
  then show ?thesis
    by (simp add: not_less [symmetric])
qed

lemma insort_key_agree:
  "\<forall>y\<in>set ys. (f x \<le> f y) = (x \<le> y) \<Longrightarrow> insort_key f x ys = insort x ys"
  by (induction ys) simp_all

lemma sort_key_agree:
  "\<forall>x\<in>set xs. \<forall>y\<in>set xs. (f x \<le> f y) = (x \<le> y) \<Longrightarrow> sort_key f xs = sort xs"
proof (induction xs)
  case Nil
  show ?case by simp
next
  case (Cons x xs)
  from Cons.prems have "\<forall>a\<in>set xs. \<forall>b\<in>set xs. (f a \<le> f b) = (a \<le> b)"
    by (meson list.set_intros(2))
  from Cons.IH [OF this] have IH: "sort_key f xs = sort xs" .
  from Cons.prems have "\<forall>y\<in>set xs. (f x \<le> f y) = (x \<le> y)"
    by (meson list.set_intros)
  then have "\<forall>y\<in>set (sort xs). (f x \<le> f y) = (x \<le> y)"
    by (simp only: set_sort)
  from insort_key_agree [OF this] have "insort_key f x (sort xs) = insort x (sort xs)" .
  then show ?case
    by (simp only: sort_key_simps IH)
qed

lemma wf_final_backups: "\<forall>f\<in>set fs. wf_final f \<Longrightarrow> backups fs = rev (sort fs)"
proof -
  assume "\<forall>f\<in>set fs. wf_final f"
  then have "\<forall>f\<in>set fs. is_backup f"
    using wf_final_is_backup by blast
  then have "filter is_backup fs = fs"
    by (simp only: filter_True)
  then show ?thesis
    by (simp only: backups_def)
qed

text \<open>
  C10, as the code has it. For every list of well-formed final names whose timestamp
  fields have the same number of digits (names of one length), sorting the names as
  strings and sorting them by their timestamps give the same list, so the descending
  sort of the sweep lists the most recent first. Timestamps of different lengths are
  ordered by their leading digits, not by their values.
\<close>

theorem name_order_is_timestamp_order:
  assumes "\<forall>f\<in>set fs. wf_final f"
    and "\<forall>f\<in>set fs. \<forall>g\<in>set fs. length f = length g"
  shows "sort fs = sort_key timestamp fs
       \<and> backups fs = rev (sort_key timestamp fs)
       \<and> sorted_wrt (\<lambda>a b. timestamp b \<le> timestamp a) (backups fs)"
proof -
  have "\<forall>x\<in>set fs. \<forall>y\<in>set fs. (timestamp x \<le> timestamp y) = (x \<le> y)"
    using assms final_names_le by blast
  from sort_key_agree [OF this] have 1: "sort fs = sort_key timestamp fs"
    by simp
  with wf_final_backups [OF assms(1)] have 2: "backups fs = rev (sort_key timestamp fs)"
    by simp
  have "sorted (map timestamp (sort_key timestamp fs))"
    by (rule sorted_sort_key)
  then have "sorted_wrt (\<lambda>a b. timestamp a \<le> timestamp b) (sort_key timestamp fs)"
    by (simp only: sorted_map)
  then have "sorted_wrt (\<lambda>a b. timestamp b \<le> timestamp a) (rev (sort_key timestamp fs))"
    by (simp only: sorted_wrt_rev)
  with 1 2 show ?thesis
    by simp
qed

theorem name_order_is_timestamp_order_witness:
  "backups [''immich-db-backup-200.sql.gz'', ''immich-db-backup-100.sql.gz'',
            ''immich-db-backup-300.sql.gz''] =
     rev (sort_key timestamp [''immich-db-backup-200.sql.gz'', ''immich-db-backup-100.sql.gz'',
            ''immich-db-backup-300.sql.gz''])
   \<and> rev (sort_key timestamp [''immich-db-backup-200.sql.gz'', ''immich-db-backup-100.sql.gz'',
            ''immich-db-backup-300.sql.gz'']) =
     [''immich-db-backup-300.sql.gz'', ''immich-db-backup-200.sql.gz'',
      ''immich-db-backup-100.sql.gz'']"
proof -
  let ?fs = "[''immich-db-backup-200.sql.gz'', ''immich-db-backup-100.sql.gz'',
              ''immich-db-backup-300.sql.gz'']"
  have h1: "\<forall>f\<in>set ?fs. wf_final f"
    by code_simp
  have h2: "\<forall>f\<in>set ?fs. \<forall>g\<in>set ?fs. length f = length g"
    by simp
  have e: "rev (sort_key timestamp ?fs) =
     [''immich-db-backup-300.sql.gz'', ''immich-db-backup-200.sql.gz'',
      ''immich-db-backup-100.sql.gz'']"
    by code_simp
  from name_order_is_timestamp_order [OF h1 h2] e show ?thesis
    by blast
qed

text \<open>
  The claim as the spec words it fails for well-formed names of different lengths:
  \<open>immich-db-backup-10.sql.gz\<close> comes before \<open>immich-db-backup-9.sql.gz\<close> in the order
  of the strings, and after it in the order of the timestamps.
\<close>

theorem name_order_differs_from_timestamp_order:
  "wf_final ''immich-db-backup-9.sql.gz'' \<and> wf_final ''immich-db-backup-10.sql.gz''
   \<and> timestamp ''immich-db-backup-9.sql.gz'' = 9 \<and> timestamp ''immich-db-backup-10.sql.gz'' = 10
   \<and> sort [''immich-db-backup-9.sql.gz'', ''immich-db-backup-10.sql.gz''] =
       [''immich-db-backup-10.sql.gz'', ''immich-db-backup-9.sql.gz'']
   \<and> sort_key timestamp [''immich-db-backup-9.sql.gz'', ''immich-db-backup-10.sql.gz''] =
       [''immich-db-backup-9.sql.gz'', ''immich-db-backup-10.sql.gz'']
   \<and> backups [''immich-db-backup-9.sql.gz'', ''immich-db-backup-10.sql.gz''] =
       [''immich-db-backup-9.sql.gz'', ''immich-db-backup-10.sql.gz'']"
  by code_simp

section \<open>Retention\<close>

lemma backups_descending: "distinct fs \<Longrightarrow> sorted_wrt (\<lambda>a b. b < a) (backups fs)"
proof -
  assume "distinct fs"
  then have "distinct (sort (filter is_backup fs))"
    by simp
  moreover have "sorted (sort (filter is_backup fs))"
    by simp
  ultimately have "sorted_wrt (<) (sort (filter is_backup fs))"
    by (simp only: strict_sorted_iff)
  then show ?thesis
    by (simp only: backups_def sorted_wrt_rev)
qed

lemma sorted_wrt_take_drop:
  "sorted_wrt P xs \<Longrightarrow> \<forall>r\<in>set (take k xs). \<forall>d\<in>set (drop k xs). P r d"
proof -
  assume "sorted_wrt P xs"
  then have "sorted_wrt P (take k xs @ drop k xs)"
    by simp
  then show ?thesis
    by (simp only: sorted_wrt_append) blast
qed

lemma distinct_backups: "distinct fs \<Longrightarrow> distinct (backups fs)"
  by (simp add: backups_def)

lemma length_backups: "length (backups fs) = length (filter is_backup fs)"
  by (simp add: backups_def)

lemma set_take_drop_distinct:
  "distinct xs \<Longrightarrow> set (take k xs) = set xs - set (drop k xs)"
proof -
  assume "distinct xs"
  then have "distinct (take k xs @ drop k xs)"
    by simp
  then have "set (take k xs) \<inter> set (drop k xs) = {}"
    by (simp only: distinct_append)
  moreover have "set xs = set (take k xs) \<union> set (drop k xs)"
    by (metis append_take_drop_id set_append)
  ultimately show ?thesis
    by blast
qed

text \<open>The number of files a completed sweep has removed is the number of its candidates.\<close>

lemma length_after_removal:
  assumes "distinct xs" and "distinct td" and "inj_on j (set td)" and "j ` set td \<subseteq> set xs"
  shows "length (filter (\<lambda>p. p \<notin> j ` set td) xs) + length td = length xs"
proof -
  have "length (filter (\<lambda>p. p \<in> j ` set td) xs) = card ({p. p \<in> j ` set td} \<inter> set xs)"
    by (rule distinct_length_filter [OF assms(1)])
  also from assms(4) have "{p. p \<in> j ` set td} \<inter> set xs = j ` set td"
    by blast
  also from assms(3) have "card (j ` set td) = card (set td)"
    by (rule card_image)
  also from assms(2) have "card (set td) = length td"
    by (rule distinct_card)
  finally have "length (filter (\<lambda>p. p \<in> j ` set td) xs) = length td" .
  with sum_length_filter_compl [of "\<lambda>p. p \<in> j ` set td" xs] show ?thesis
    by simp
qed

text \<open>
  C3, as the code has it. Take a sweep in which no deletion is refused, over a listing
  with \<open>n\<close> names the expression for finished backups accepts, with keep-count \<open>k\<close>.
  The sweep reports the number of files it has deleted, which is \<open>n - k\<close> (none when
  \<open>k\<close> exceeds \<open>n\<close>) plus the number of temporary files; it retains exactly \<open>min n k\<close>
  of the \<open>n\<close> names, the first \<open>k\<close> in descending name order, and deletes the others,
  each of which is smaller, as a string, than every retained one. When the \<open>n\<close> names
  are well-formed and of one length, every retained backup has a greater timestamp than
  every deleted one: the \<open>k\<close> most recent are kept.
\<close>

theorem sweep_retention:
  fixes w :: world and st :: sys
  defines "k \<equiv> keepLastAmount (backup w)"
    and "fs \<equiv> readdir (baseFolder w) st"
    and "st' \<equiv> snd (cleanupDatabaseBackups w st)"
  defines "fs' \<equiv> readdir (baseFolder w) st'"
  assumes "distinct (files st)"
    and "\<forall>g\<in>set (toDelete k fs). \<not> unlink_fails w (path_join (baseFolder w) g)"
  shows "fst (cleanupDatabaseBackups w st) = Inr (length (files st) - length (files st'))
       \<and> length (files st) - length (files st') =
           (length (filter is_backup fs) - k) + length (filter is_failed_backup fs)
       \<and> fs' = filter (\<lambda>f. f \<notin> set (toDelete k fs)) fs
       \<and> set (filter is_backup fs') = set (take k (backups fs))
       \<and> length (filter is_backup fs') = min (length (filter is_backup fs)) k
       \<and> (\<forall>d\<in>set (filter is_backup fs) - set (filter is_backup fs').
             path_join (baseFolder w) d \<notin> set (files st')
             \<and> (\<forall>r\<in>set (filter is_backup fs'). d < r))
       \<and> ((\<forall>f\<in>set (filter is_backup fs). wf_final f)
            \<and> (\<forall>f\<in>set (filter is_backup fs). \<forall>g\<in>set (filter is_backup fs). length f = length g)
          \<longrightarrow> (\<forall>d\<in>set (filter is_backup fs) - set (filter is_backup fs').
                \<forall>r\<in>set (filter is_backup fs'). timestamp d < timestamp r))"
proof -
  let ?base = "baseFolder w"
  let ?td = "toDelete k fs"
  let ?bs = "backups fs"
  let ?R = "filter is_backup fs'"
  have dfs: "distinct fs"
    unfolding fs_def by (rule distinct_readdir [OF assms(5)])
  have dtd: "distinct ?td"
    by (rule distinct_toDelete [OF dfs])
  have dbs: "distinct ?bs"
    by (rule distinct_backups [OF dfs])
  have res: "cleanupDatabaseBackups w st =
      (Inr (length ?td),
       st\<lparr>files := filter (\<lambda>p. p \<notin> path_join ?base ` set ?td) (files st),
          calls := calls st @ map (\<lambda>f. Unlink (path_join ?base f) True) ?td\<rparr>)"
    using cleanup_ok [OF assms(5), of w] assms(6) unfolding k_def fs_def by simp
  have st': "st' = st\<lparr>files := filter (\<lambda>p. p \<notin> path_join ?base ` set ?td) (files st),
          calls := calls st @ map (\<lambda>f. Unlink (path_join ?base f) True) ?td\<rparr>"
    unfolding st'_def res by simp
  have files': "files st' = filter (\<lambda>p. p \<notin> path_join ?base ` set ?td) (files st)"
    unfolding st' by simp
  have sub: "set ?td \<subseteq> {f \<in> set fs. is_backup f \<or> is_failed_backup f}"
    by (rule set_toDelete_subset)
  then have "path_join ?base ` set ?td \<subseteq> set (files st)"
    unfolding fs_def by (auto simp: readdir_iff)
  from length_after_removal [OF assms(5) dtd _ this]
  have "length (files st') + length ?td = length (files st)"
    unfolding files' by (simp add: inj_on_def)
  then have count: "length (files st) - length (files st') = length ?td"
    by simp
  have c1: "fst (cleanupDatabaseBackups w st) = Inr (length (files st) - length (files st'))"
    unfolding count res by simp
  have "length ?td = length (drop k ?bs) + length (failedBackups fs)"
    by (simp add: toDelete_def)
  then have c2: "length (files st) - length (files st') =
           (length (filter is_backup fs) - k) + length (filter is_failed_backup fs)"
    unfolding count by (simp add: length_backups failedBackups_def)
  have c3: "fs' = filter (\<lambda>f. f \<notin> set ?td) fs"
    unfolding fs'_def fs_def st' by (rule readdir_filter)
  have mem: "f \<in> set ?td \<longleftrightarrow> f \<in> set (drop k ?bs)" if "is_backup f" for f
    using that backup_not_failed [OF that] by (auto simp: toDelete_def failedBackups_def)
  have "set ?R = {f \<in> set fs. is_backup f \<and> f \<notin> set ?td}"
    unfolding c3 by auto
  also have "\<dots> = {f \<in> set fs. is_backup f} - set (drop k ?bs)"
    using mem by blast
  also have "\<dots> = set ?bs - set (drop k ?bs)"
    by (simp only: set_backups)
  also have "\<dots> = set (take k ?bs)"
    by (rule set_take_drop_distinct [OF dbs, symmetric])
  finally have c4: "set ?R = set (take k ?bs)" .
  have "distinct ?R"
    unfolding c3 using dfs by simp
  then have "length ?R = card (set ?R)"
    by (rule distinct_card [symmetric])
  also have "\<dots> = card (set (take k ?bs))"
    by (simp only: c4)
  also have "\<dots> = length (take k ?bs)"
    by (rule distinct_card) (use dbs in simp)
  finally have c5: "length ?R = min (length (filter is_backup fs)) k"
    by (simp add: length_backups)
  have del: "set (filter is_backup fs) - set ?R = set (drop k ?bs)"
  proof -
    have "set (filter is_backup fs) = set ?bs"
      by (auto simp: set_backups)
    moreover have "set (drop k ?bs) \<subseteq> set ?bs"
      by (rule set_drop_subset)
    ultimately show ?thesis
      unfolding c4 set_take_drop_distinct [OF dbs] by blast
  qed
  have desc: "\<forall>r\<in>set (take k ?bs). \<forall>d\<in>set (drop k ?bs). d < r"
    by (rule sorted_wrt_take_drop [OF backups_descending [OF dfs]])
  have c6: "\<forall>d\<in>set (filter is_backup fs) - set ?R.
             path_join ?base d \<notin> set (files st') \<and> (\<forall>r\<in>set ?R. d < r)"
  proof
    fix d assume "d \<in> set (filter is_backup fs) - set ?R"
    then have d: "d \<in> set (drop k ?bs)"
      unfolding del .
    then have "d \<in> set ?td"
      by (simp add: toDelete_def)
    then have "path_join ?base d \<notin> set (files st')"
      unfolding files' by simp
    moreover from d desc have "\<forall>r\<in>set ?R. d < r"
      unfolding c4 by blast
    ultimately show "path_join ?base d \<notin> set (files st') \<and> (\<forall>r\<in>set ?R. d < r)"
      by blast
  qed
  have c7: "(\<forall>f\<in>set (filter is_backup fs). wf_final f)
            \<and> (\<forall>f\<in>set (filter is_backup fs). \<forall>g\<in>set (filter is_backup fs). length f = length g)
          \<longrightarrow> (\<forall>d\<in>set (filter is_backup fs) - set ?R. \<forall>r\<in>set ?R. timestamp d < timestamp r)"
  proof (intro impI ballI)
    fix d r
    assume a: "(\<forall>f\<in>set (filter is_backup fs). wf_final f)
            \<and> (\<forall>f\<in>set (filter is_backup fs). \<forall>g\<in>set (filter is_backup fs). length f = length g)"
      and d: "d \<in> set (filter is_backup fs) - set ?R" and r: "r \<in> set ?R"
    from r have rb: "r \<in> set (filter is_backup fs)"
      unfolding c3 by auto
    from d have db: "d \<in> set (filter is_backup fs)"
      by blast
    from c6 d r have "d < r"
      by blast
    moreover from a db rb have "wf_final d" "wf_final r" "length d = length r"
      by blast+
    ultimately show "timestamp d < timestamp r"
      by (simp add: final_names_less)
  qed
  from c1 c2 c3 c4 c5 c6 c7 show ?thesis
    by blast
qed

theorem sweep_retention_witness:
  "distinct (files example_sys)
   \<and> fst (cleanupDatabaseBackups example_world example_sys) = Inr 2
   \<and> set (filter is_backup (readdir (baseFolder example_world)
          (snd (cleanupDatabaseBackups example_world example_sys)))) =
       set [''immich-db-backup-300.sql.gz'', ''immich-db-backup-200.sql.gz'']
   \<and> length (filter is_backup (readdir (baseFolder example_world)
          (snd (cleanupDatabaseBackups example_world example_sys)))) = min 3 2"
proof -
  have h1: "distinct (files example_sys)"
    by (simp add: example_sys_def)
  have h2: "\<forall>g\<in>set (toDelete (keepLastAmount (backup example_world))
                       (readdir (baseFolder example_world) example_sys)).
           \<not> unlink_fails example_world (path_join (baseFolder example_world) g)"
    by (simp add: example_world_def)
  have e1: "length (files example_sys)
              - length (files (snd (cleanupDatabaseBackups example_world example_sys))) = 2"
    by code_simp
  have e2: "take 2 (backups (readdir (baseFolder example_world) example_sys)) =
            [''immich-db-backup-300.sql.gz'', ''immich-db-backup-200.sql.gz'']"
    by code_simp
  have e3: "length (filter is_backup (readdir (baseFolder example_world) example_sys)) = 3"
    by code_simp
  have e4: "keepLastAmount (backup example_world) = 2"
    by (simp add: example_world_def)
  from sweep_retention [OF h1 h2]
  have "fst (cleanupDatabaseBackups example_world example_sys) =
          Inr (length (files example_sys)
                - length (files (snd (cleanupDatabaseBackups example_world example_sys))))"
    and "set (filter is_backup (readdir (baseFolder example_world)
          (snd (cleanupDatabaseBackups example_world example_sys)))) =
         set (take (keepLastAmount (backup example_world))
              (backups (readdir (baseFolder example_world) example_sys)))"
    and "length (filter is_backup (readdir (baseFolder example_world)
          (snd (cleanupDatabaseBackups example_world example_sys)))) =
         min (length (filter is_backup (readdir (baseFolder example_world) example_sys)))
           (keepLastAmount (backup example_world))"
    by blast+
  with h1 show ?thesis
    unfolding e1 e3 e4 e2 by blast
qed

text \<open>
  The claim as the spec words it fails on well-formed names of different lengths: with
  a keep-count of one and the backups of the timestamps 9 and 10, the sweep keeps the
  backup of timestamp 9 and deletes the more recent one.
\<close>

theorem sweep_keeps_older_backup:
  "wf_final ''immich-db-backup-9.sql.gz'' \<and> wf_final ''immich-db-backup-10.sql.gz''
   \<and> timestamp ''immich-db-backup-9.sql.gz'' = 9 \<and> timestamp ''immich-db-backup-10.sql.gz'' = 10
   \<and> cleanupDatabaseBackups
       (example_world\<lparr>backup := \<lparr>cronExpression = ''0 02 * * *'', enabled = True,
                                   keepLastAmount = 1\<rparr>\<rparr>)
       \<lparr>files = [''upload/backups/immich-db-backup-9.sql.gz'',
                 ''upload/backups/immich-db-backup-10.sql.gz''], calls = []\<rparr> =
     (Inr 1,
      \<lparr>files = [''upload/backups/immich-db-backup-9.sql.gz''],
       calls = [Unlink ''upload/backups/immich-db-backup-10.sql.gz'' True]\<rparr>)"
  by code_simp

end
